theory Spec2Isabelle
  imports Complex_Main
begin

section \<open>The view tree of drawer2.js\<close>

text \<open>
  The script keeps a tree of mutable objects: every \<open>View\<close> has a rectangle, a background,
  a border and a back pointer to its container; a \<open>Container\<close> is a view with an array of
  child references and a \<open>Map\<close> keyed by child identity. Objects are shared by reference,
  so the model is an explicit store: a reference is a number, the store gives the fields
  that every view has (\<open>viewOf\<close>) and the fields of its class (\<open>cls\<close>).

  JavaScript numbers are modelled as real numbers; the rounding of IEEE doubles is outside
  the model. The canvas context is modelled by what the script can observe of it: the
  sequence of calls made on it (\<open>calls\<close>) and the text metrics it reports (\<open>textWidth\<close>).
  A background function and an event handler are code of the caller; a background function
  is recorded as a call and assumed not to touch the view tree.
\<close>

type_synonym ref = nat

datatype bg = NoBg | BgColor string | BgFunction nat

record border =
  border_width :: real
  border_color :: string

record view =
  x :: real
  y :: real
  width :: real
  height :: real
  bg :: bg
  border :: "border option"
  parent :: "ref option"

datatype layoutManager =
  LayoutManager
  | FlowLayoutManager (horizonSpace: real) (verticalSpace: real)

record container =
  views :: "ref list"
  layoutManager :: "layoutManager option"
  relativePoints :: "ref \<rightharpoonup> real \<times> real"
  paddingLeft :: real
  paddingTop :: real
  paddingRight :: real
  paddingBottom :: real

record label =
  label_text :: string
  padding :: real
  fontColor :: string
  fontSize :: real
  font :: string

datatype cls = View | Container container | Label label

datatype call =
  Save
  | Restore
  | SetFillStyle string
  | SetStrokeStyle string
  | SetLineWidth real
  | SetFont real string
  | SetTextBaseline string
  | FillRect real real real real
  | StrokeRect real real real real
  | ClearRect real real real real
  | FillText string real real
  | CallBg nat ref

record state =
  viewOf :: "ref \<Rightarrow> view"
  cls :: "ref \<Rightarrow> cls"
  textWidth :: "real \<Rightarrow> string \<Rightarrow> string \<Rightarrow> real"
  calls :: "call list"

datatype error = OwnershipConflict

subsection \<open>View\<close>

text \<open>\<open>new View(x, y, width, height)\<close> and \<open>new Container(x, y, width, height)\<close>.\<close>

definition new_View :: "real \<Rightarrow> real \<Rightarrow> real \<Rightarrow> real \<Rightarrow> view" where
  "new_View px py w h =
     \<lparr>x = px, y = py, width = w, height = h, bg = NoBg,
      border = Some \<lparr>border_width = 0, border_color = ''#000''\<rparr>, parent = None\<rparr>"

definition new_Container :: container where
  "new_Container =
     \<lparr>views = [], layoutManager = None, relativePoints = Map.empty,
      paddingLeft = 0, paddingTop = 0, paddingRight = 0, paddingBottom = 0\<rparr>"

text \<open>\<open>View.isIntersect\<close>, lines 175-178.\<close>

definition isIntersect :: "view \<Rightarrow> real \<Rightarrow> real \<Rightarrow> bool" where
  "isIntersect v px py \<longleftrightarrow>
     px \<ge> x v \<and> py \<ge> y v \<and> px \<le> (x v + width v) \<and> py \<le> (y v + height v)"

text \<open>
  \<open>measure\<close>: nothing for \<open>View\<close> and \<open>Container\<close>; \<open>Label\<close> sets the font on the
  context and takes its size from the measured text (lines 389-395).
\<close>

definition measure_view :: "ref \<Rightarrow> state \<Rightarrow> state" where
  "measure_view r s =
     (case cls s r of
        Label l \<Rightarrow>
          s\<lparr>calls := calls s @ [SetFont (fontSize l) (font l)],
            viewOf := (viewOf s)(r := (viewOf s r)
              \<lparr>width := real_of_int \<lceil>textWidth s (fontSize l) (font l) (label_text l)\<rceil> + padding l,
               height := fontSize l + padding l\<rparr>)\<rparr>
      | _ \<Rightarrow> s)"

text \<open>\<open>View._drawBg\<close> and \<open>View._drawBorder\<close>: calls on the context only.\<close>

definition drawBg :: "ref \<Rightarrow> view \<Rightarrow> call list" where
  "drawBg r v =
     (case bg v of
        BgFunction f \<Rightarrow> [CallBg f r]
      | BgColor c \<Rightarrow> [SetFillStyle c, FillRect (x v) (y v) (width v) (height v)]
      | NoBg \<Rightarrow> [])"

definition drawBorder :: "view \<Rightarrow> call list" where
  "drawBorder v =
     (case border v of
        Some b \<Rightarrow>
          if border_width b > 0
          then [SetStrokeStyle (border_color b), SetLineWidth (border_width b),
                StrokeRect (x v) (y v) (width v) (height v)]
          else []
      | None \<Rightarrow> [])"

definition View_draw :: "ref \<Rightarrow> state \<Rightarrow> state" where
  "View_draw r s = s\<lparr>calls := calls s @ drawBg r (viewOf s r) @ drawBorder (viewOf s r)\<rparr>"

definition Label_draw :: "ref \<Rightarrow> label \<Rightarrow> state \<Rightarrow> state" where
  "Label_draw r l s =
     (let s1 = View_draw r s; v = viewOf s1 r
      in s1\<lparr>calls := calls s1 @
           [SetFillStyle (fontColor l), SetFont (fontSize l) (font l), SetTextBaseline ''top'',
            FillText (label_text l) (x v + padding l / 2) (y v + padding l / 2)]\<rparr>)"

subsection \<open>Layout managers\<close>

text \<open>
  \<open>FlowLayoutManager.layout\<close>, lines 342-364. \<open>flowStep\<close> is the body of the loop over
  \<open>container.views\<close>: it takes the cursor \<open>(cx, cy)\<close> (the script's \<open>x\<close> and \<open>y\<close>) and the
  store to the cursor and the store after the child \<open>v\<close>; \<open>hs\<close> and \<open>vsp\<close> are
  \<open>horizonSpace\<close> and \<open>verticalSpace\<close>, \<open>aw\<close> is \<open>availableWidth\<close>. \<open>flowLoop\<close> runs the
  body over the children in their order.
\<close>

fun flowStep :: "real \<Rightarrow> real \<Rightarrow> real \<Rightarrow> ref \<Rightarrow> real \<times> real \<times> state \<Rightarrow> real \<times> real \<times> state" where
  "flowStep hs vsp aw v (cx, cy, s) =
     (let s1 = measure_view v s;
          viewOccupyWidth = hs + width (viewOf s1 v);
          wrap = (viewOccupyWidth + cx > aw);
          cx1 = (if wrap then 0 else cx);
          cy1 = (if wrap then cy + (height (viewOf s1 v) + vsp) else cy);
          s2 = s1\<lparr>viewOf := (viewOf s1)(v := (viewOf s1 v)\<lparr>x := cx1, y := cy1\<rparr>)\<rparr>
      in (cx1 + (viewOccupyWidth + hs), cy1, s2))"

declare flowStep.simps [simp del]

definition flowLoop :: "real \<Rightarrow> real \<Rightarrow> real \<Rightarrow> ref list \<Rightarrow> real \<times> real \<times> state \<Rightarrow> real \<times> real \<times> state" where
  "flowLoop hs vsp aw vs cur = fold (flowStep hs vsp aw) vs cur"

definition layout :: "layoutManager \<Rightarrow> ref \<Rightarrow> state \<Rightarrow> state" where
  "layout lm c s =
     (case lm of
        LayoutManager \<Rightarrow> s
      | FlowLayoutManager hs vsp \<Rightarrow>
          (case cls s c of
             Container k \<Rightarrow>
               snd (snd (flowLoop hs vsp (width (viewOf s c) - (paddingLeft k + paddingRight k))
                 (views k) (0, 0, s)))
           | _ \<Rightarrow> s))"

subsection \<open>Container\<close>

text \<open>
  The body of the \<open>forEach\<close> in \<open>Container.draw\<close> up to \<open>context.save()\<close>, lines 269-281:
  the relative point of the child is looked up, recorded from the child's position when
  there is none, and the child is moved to padding plus container origin plus that point.
  The fields of the container are read when the child is reached, as the script does.
\<close>

definition placeChild :: "ref \<Rightarrow> ref \<Rightarrow> state \<Rightarrow> state" where
  "placeChild c v s =
     (case cls s c of
        Container k \<Rightarrow>
          (let point = (case relativePoints k v of
                          None \<Rightarrow> (x (viewOf s v), y (viewOf s v))
                        | Some p \<Rightarrow> p);
               s1 = s\<lparr>cls := (cls s)(c := Container (k\<lparr>relativePoints := (relativePoints k)(v \<mapsto> point)\<rparr>))\<rparr>
           in s1\<lparr>viewOf := (viewOf s1)(v := (viewOf s1 v)
                  \<lparr>x := paddingLeft k + x (viewOf s1 c) + fst point,
                   y := paddingTop k + y (viewOf s1 c) + snd point\<rparr>),
                 calls := calls s1 @ [Save]\<rparr>)
      | _ \<Rightarrow> s)"

text \<open>
  \<open>draw\<close> with the dispatch on the class of the receiver. \<open>Container.draw\<close> (lines 261-286)
  calls \<open>draw\<close> on every child, so the recursion follows the references of the store and
  need not end (a container can be added to itself). The first argument bounds the depth
  of the calls; \<open>None\<close> is the script exhausting its call stack.
\<close>

fun draw :: "nat \<Rightarrow> ref \<Rightarrow> state \<Rightarrow> state option"
  and drawViews :: "nat \<Rightarrow> ref \<Rightarrow> ref list \<Rightarrow> state \<Rightarrow> state option" where
  "draw 0 r s = None"
| "draw (Suc n) r s =
     (case cls s r of
        View \<Rightarrow> Some (View_draw r s)
      | Label l \<Rightarrow> Some (Label_draw r l s)
      | Container k \<Rightarrow>
          (let s1 = View_draw r s;
               s2 = (case layoutManager k of None \<Rightarrow> s1 | Some lm \<Rightarrow> layout lm r s1)
           in drawViews n r (views k) s2))"
| "drawViews n c [] s = Some s"
| "drawViews n c (v # vs) s =
     (case draw n v (placeChild c v s) of
        None \<Rightarrow> None
      | Some s1 \<Rightarrow> drawViews n c vs (s1\<lparr>calls := calls s1 @ [Restore]\<rparr>))"

text \<open>\<open>N\<close> consecutive calls of \<open>draw\<close> on the same view.\<close>

fun draws :: "nat \<Rightarrow> nat \<Rightarrow> ref \<Rightarrow> state \<Rightarrow> state option" where
  "draws n 0 r s = Some s"
| "draws n (Suc N) r s =
     (case draw n r s of None \<Rightarrow> None | Some s1 \<Rightarrow> draws n N r s1)"

text \<open>
  \<open>Container.addChild\<close>, lines 292-299. The result pairs the outcome with the store the
  call leaves behind; the exception is thrown before anything is written. The error is
  the script's \<open>Error("the view has related a container.")\<close>. The receiver of
  \<open>addChild\<close> and \<open>removeChild\<close> is a container, the methods exist on no other class;
  the statements below are about such receivers.
\<close>

definition addChild :: "ref \<Rightarrow> ref \<Rightarrow> state \<Rightarrow> (error + unit) \<times> state" where
  "addChild c v s =
     (case cls s c of
        Container k \<Rightarrow>
          if parent (viewOf s v) \<noteq> None then (Inl OwnershipConflict, s)
          else
            (let s1 = s\<lparr>viewOf := (viewOf s)(v := (viewOf s v)\<lparr>parent := Some c\<rparr>)\<rparr>
             in (Inr (), s1\<lparr>cls := (cls s1)(c := Container (k\<lparr>views := views k @ [v]\<rparr>))\<rparr>))
      | _ \<Rightarrow> (Inr (), s))"

text \<open>
  \<open>Container.removeChild\<close>, lines 305-311. \<open>indexOf\<close> finds the first occurrence and
  \<open>splice(index, 1)\<close> removes that one element.
\<close>

fun indexOf :: "ref list \<Rightarrow> ref \<Rightarrow> int" where
  "indexOf [] v = -1"
| "indexOf (u # us) v = (if u = v then 0 else (let i = indexOf us v in if i > -1 then i + 1 else -1))"

definition splice1 :: "nat \<Rightarrow> 'a list \<Rightarrow> 'a list" where
  "splice1 i xs = take i xs @ drop (Suc i) xs"

definition removeChild :: "ref \<Rightarrow> ref \<Rightarrow> state \<Rightarrow> state" where
  "removeChild c v s =
     (case cls s c of
        Container k \<Rightarrow>
          (let index = indexOf (views k) v
           in if index > -1
              then (let s1 = s\<lparr>viewOf := (viewOf s)(v := (viewOf s v)\<lparr>parent := None\<rparr>)\<rparr>
                    in s1\<lparr>cls := (cls s1)(c := Container (k\<lparr>views := splice1 (nat index) (views k)\<rparr>))\<rparr>)
              else s)
      | _ \<Rightarrow> s)"

subsection \<open>Drawer\<close>

text \<open>
  The events handed to \<open>Drawer.handleEvent\<close> are \<open>{x, y, type}\<close>. A handler is code of the
  caller: it gets the event and may change the store. \<open>registerViews\<close> is a \<open>Map\<close>, which
  iterates in the order in which its keys were first set; \<open>Map.set\<close> on a key that is
  present replaces the value in place.
\<close>

record event =
  event_x :: real
  event_y :: real
  event_type :: string

type_synonym handler = "event \<Rightarrow> state \<Rightarrow> state"

record drawer =
  container :: ref
  registerViews :: "(ref \<times> handler) list"

fun map_set :: "'k \<Rightarrow> 'v \<Rightarrow> ('k \<times> 'v) list \<Rightarrow> ('k \<times> 'v) list" where
  "map_set k v [] = [(k, v)]"
| "map_set k v (p # ps) = (if fst p = k then (k, v) # ps else p # map_set k v ps)"




text \<open>One frame of \<open>Drawer.run\<close>, lines 93-101, without the request for the next frame.\<close>

definition run :: "nat \<Rightarrow> drawer \<Rightarrow> state \<Rightarrow> state option" where
  "run n d s =
     (let c = viewOf s (container d)
      in draw n (container d) (s\<lparr>calls := calls s @ [ClearRect (x c) (y c) (width c) (height c)]\<rparr>))"

subsection \<open>The tree below a view\<close>

text \<open>
  The children of a view (none unless it is a container) and the views that are reached
  from it through at most \<open>n\<close> child references: its descendants down to that depth.
\<close>

definition children :: "state \<Rightarrow> ref \<Rightarrow> ref list" where
  "children s r = (case cls s r of Container k \<Rightarrow> views k | _ \<Rightarrow> [])"

fun below :: "nat \<Rightarrow> state \<Rightarrow> ref \<Rightarrow> ref set" where
  "below 0 s r = {}"
| "below (Suc n) s r = set (children s r) \<union> (\<Union>v \<in> set (children s r). below n s v)"

text \<open>
  What drawing never changes: the class of an object and its fields apart from the
  relative points (\<open>shape\<close>), the background, border and owner of a view (\<open>static\<close>), the
  text metrics of the context, and a relative point once it is recorded (\<open>recorded\<close>).
  \<open>evolves s s'\<close> says that \<open>s'\<close> agrees with \<open>s\<close> on all of these.
\<close>

definition shape :: "state \<Rightarrow> ref \<Rightarrow> cls" where
  "shape s r =
     (case cls s r of
        Container k \<Rightarrow> Container (k\<lparr>relativePoints := Map.empty\<rparr>)
      | other \<Rightarrow> other)"

definition recorded :: "state \<Rightarrow> ref \<Rightarrow> ref \<Rightarrow> (real \<times> real) option" where
  "recorded s c v = (case cls s c of Container k \<Rightarrow> relativePoints k v | _ \<Rightarrow> None)"

definition static :: "view \<Rightarrow> bg \<times> border option \<times> ref option" where
  "static v = (bg v, border v, parent v)"

definition evolves :: "state \<Rightarrow> state \<Rightarrow> bool" where
  "evolves s s' \<longleftrightarrow>
     textWidth s' = textWidth s
     \<and> (\<forall>q. shape s' q = shape s q)
     \<and> (\<forall>q. static (viewOf s' q) = static (viewOf s q))
     \<and> (\<forall>q v p. recorded s q v = Some p \<longrightarrow> recorded s' q v = Some p)"

text \<open>
  The position \<open>Container.draw\<close> gives a child: the container with fields \<open>k\<close> and view
  \<open>cv\<close> has put the view \<open>v\<close> at its own origin plus padding plus the point \<open>p\<close>.
\<close>

definition placedAt :: "container \<Rightarrow> real \<times> real \<Rightarrow> view \<Rightarrow> view \<Rightarrow> bool" where
  "placedAt k p cv v \<longleftrightarrow>
     x v = paddingLeft k + x cv + fst p \<and> y v = paddingTop k + y cv + snd p"

text \<open>
  The ownership discipline of \<open>addChild\<close> and \<open>removeChild\<close>: every view in the child
  sequence of a container has that container as its owner, and no child sequence holds a
  view twice.
\<close>

definition ownership :: "state \<Rightarrow> bool" where
  "ownership s \<longleftrightarrow>
     (\<forall>c v. v \<in> set (children s c) \<longrightarrow> parent (viewOf s v) = Some c)
     \<and> (\<forall>c. distinct (children s c))"

text \<open>
  \<open>fits n s r\<close>: the tree below \<open>r\<close> is less than \<open>n\<close> deep, so that a draw of \<open>r\<close> with
  depth bound \<open>n\<close> reaches every view below it.
\<close>

fun fits :: "nat \<Rightarrow> state \<Rightarrow> ref \<Rightarrow> bool" where
  "fits 0 s r = False"
| "fits (Suc n) s r = (\<forall>v \<in> set (children s r). fits n s v)"

text \<open>
  Two stores that differ at most in the calls made on the context, and the store after
  the layout pass of a draw of the container \<open>c\<close> with fields \<open>k\<close>.
\<close>

definition agree :: "state \<Rightarrow> state \<Rightarrow> bool" where
  "agree s t \<longleftrightarrow> viewOf s = viewOf t \<and> cls s = cls t \<and> textWidth s = textWidth t"

definition afterLayout :: "container \<Rightarrow> ref \<Rightarrow> state \<Rightarrow> state" where
  "afterLayout k c s = (case layoutManager k of None \<Rightarrow> s | Some lm \<Rightarrow> layout lm c s)"

subsection \<open>The flow layout as a function of the sizes\<close>

text \<open>
  The size a view has once it is measured, its position, and the flow layout without the
  store: \<open>flowCursor\<close> gives the position of a child of the given size and the next cursor,
  \<open>flowPlace\<close> the positions of a sequence of children. The loop of the script is shown
  below to compute these.
\<close>

definition sizeOf :: "state \<Rightarrow> ref \<Rightarrow> real \<times> real" where
  "sizeOf s v = (width (viewOf (measure_view v s) v), height (viewOf (measure_view v s) v))"

fun flowCursor :: "real \<Rightarrow> real \<Rightarrow> real \<Rightarrow> real \<times> real \<Rightarrow> real \<times> real \<Rightarrow> (real \<times> real) \<times> (real \<times> real)" where
  "flowCursor hs vsp aw (w, h) (cx, cy) =
     (if hs + w + cx > aw
      then ((0, cy + (h + vsp)), (0 + (hs + w + hs), cy + (h + vsp)))
      else ((cx, cy), (cx + (hs + w + hs), cy)))"

fun flowPlace :: "real \<Rightarrow> real \<Rightarrow> real \<Rightarrow> (real \<times> real) list \<Rightarrow> real \<times> real \<Rightarrow> (real \<times> real) list" where
  "flowPlace hs vsp aw [] cur = []"
| "flowPlace hs vsp aw (z # zs) cur =
     fst (flowCursor hs vsp aw z cur) # flowPlace hs vsp aw zs (snd (flowCursor hs vsp aw z cur))"

definition posOf :: "state \<Rightarrow> ref \<Rightarrow> real \<times> real" where
  "posOf s v = (x (viewOf s v), y (viewOf s v))"

subsection \<open>Handlers and hits\<close>







subsection \<open>Example stores\<close>

text \<open>
  A container (0) at (100, 50) with padding 3 and 4 that holds a view (1), whose relative
  point (5, 6) is recorded and which a draw has put at (108, 60), and a container (2)
  with a label (3); an empty container (5) at (10, 10).
\<close>

definition stage_root :: container where
  "stage_root = new_Container\<lparr>views := [1, 2], relativePoints := [1 \<mapsto> (5, 6)],
     paddingLeft := 3, paddingTop := 4\<rparr>"

definition stage_inner :: container where
  "stage_inner = new_Container\<lparr>views := [3]\<rparr>"

definition stage_label :: label where
  "stage_label = \<lparr>label_text = ''ok'', padding = 2, fontColor = ''black'', fontSize = 12, font = ''Arial''\<rparr>"

definition stage :: state where
  "stage =
     \<lparr>viewOf = (\<lambda>r. new_View 0 0 0 0)
        (0 := new_View 100 50 200 100,
         1 := (new_View 108 60 40 20)\<lparr>parent := Some 0\<rparr>,
         2 := (new_View 50 10 60 40)\<lparr>parent := Some 0\<rparr>,
         3 := (new_View 1 1 0 0)\<lparr>parent := Some 2\<rparr>,
         5 := new_View 10 10 80 80),
      cls = (\<lambda>r. View)(0 := Container stage_root, 2 := Container stage_inner,
         3 := Label stage_label, 5 := Container new_Container),
      textWidth = (\<lambda>size family txt. 7 * real (length txt)),
      calls = []\<rparr>"

text \<open>
  Three containers with a flow layout without gaps, each 100 wide and without padding:
  6 holds three views of 40 by 10; 10 holds one view of 150 by 20; 12 holds a view of
  60 by 10 and a view of 60 by 30.
\<close>

definition flow_box :: container where
  "flow_box = new_Container\<lparr>views := [7, 8, 9], layoutManager := Some (FlowLayoutManager 0 0)\<rparr>"

definition wide_box :: container where
  "wide_box = new_Container\<lparr>views := [11], layoutManager := Some (FlowLayoutManager 0 0)\<rparr>"

definition rows_box :: container where
  "rows_box = new_Container\<lparr>views := [13, 14], layoutManager := Some (FlowLayoutManager 0 0)\<rparr>"

definition flow_stage :: state where
  "flow_stage =
     \<lparr>viewOf = (\<lambda>r. new_View 0 0 0 0)
        (6 := new_View 10 20 100 60,
         7 := (new_View 0 0 40 10)\<lparr>parent := Some 6\<rparr>,
         8 := (new_View 0 0 40 10)\<lparr>parent := Some 6\<rparr>,
         9 := (new_View 0 0 40 10)\<lparr>parent := Some 6\<rparr>,
         10 := new_View 0 0 100 60,
         11 := (new_View 0 0 150 20)\<lparr>parent := Some 10\<rparr>,
         12 := new_View 0 0 100 60,
         13 := (new_View 0 0 60 10)\<lparr>parent := Some 12\<rparr>,
         14 := (new_View 0 0 60 30)\<lparr>parent := Some 12\<rparr>),
      cls = (\<lambda>r. View)(6 := Container flow_box, 10 := Container wide_box, 12 := Container rows_box),
      textWidth = (\<lambda>size family txt. 7 * real (length txt)),
      calls = []\<rparr>"







text \<open>
  The flow container 6 after a draw, after its first child is then removed, and after
  the draw that follows.
\<close>

definition flow_drawn :: state where
  "flow_drawn = the (draw 2 6 flow_stage)"

definition flow_removed :: state where
  "flow_removed = removeChild 6 7 flow_drawn"

definition flow_redrawn :: state where
  "flow_redrawn = the (draw 2 6 flow_removed)"

section \<open>Hit test\<close>

text \<open>
  Claim C8. \<open>isIntersect\<close> holds exactly for the points of the closed rectangle: the
  horizontal coordinate lies between the left edge and the left edge plus the width, the
  vertical one between the top edge and the top edge plus the height, all four edges
  included. For the view at (10, 10) of size 20 by 20 the points (10, 10), (30, 30) and
  (20, 20) are inside, (9, 10) and (31, 20) are outside.
\<close>

theorem isIntersect_closed_rectangle:
  "(isIntersect v px py \<longleftrightarrow>
      px \<in> {x v .. x v + width v} \<and> py \<in> {y v .. y v + height v})
   \<and> isIntersect (new_View 10 10 20 20) 10 10
   \<and> isIntersect (new_View 10 10 20 20) 30 30
   \<and> isIntersect (new_View 10 10 20 20) 20 20
   \<and> \<not> isIntersect (new_View 10 10 20 20) 9 10
   \<and> \<not> isIntersect (new_View 10 10 20 20) 31 20"
  by (auto simp: isIntersect_def new_View_def)

section \<open>Adding and removing children\<close>

lemma indexOf_found: "indexOf us v > -1 \<longleftrightarrow> v \<in> set us"
  by (induction us) (auto simp: Let_def)

lemma splice1_indexOf: "v \<in> set us \<Longrightarrow> splice1 (nat (indexOf us v)) us = remove1 v us"
proof (induction us)
  case Nil
  then show ?case by simp
next
  case (Cons u us)
  show ?case
  proof (cases "u = v")
    case True
    then show ?thesis by (simp add: splice1_def)
  next
    case False
    with Cons.prems have mem: "v \<in> set us" by simp
    then have pos: "indexOf us v > -1" by (simp add: indexOf_found)
    then have "nat (indexOf us v + 1) = Suc (nat (indexOf us v))" by simp
    with False pos Cons.IH [OF mem] show ?thesis
      by (simp add: splice1_def Let_def)
  qed
qed

text \<open>
  Claim C2. On a container, \<open>addChild\<close> fails with the ownership error exactly when the
  view has an owner already, and then the store is what it was: neither the owner of the
  view nor the child sequence of the container has changed. Otherwise it succeeds, the
  view's owner is the container, the child sequence is the old one with the view appended
  at its end, and no other field of the container or the view and no other object changes.
\<close>

theorem addChild_ownership:
  assumes "cls s c = Container k"
  shows "(fst (addChild c v s) = Inl OwnershipConflict \<longleftrightarrow> parent (viewOf s v) \<noteq> None)
    \<and> (parent (viewOf s v) \<noteq> None \<longrightarrow> snd (addChild c v s) = s)
    \<and> (parent (viewOf s v) = None \<longrightarrow>
         fst (addChild c v s) = Inr ()
       \<and> parent (viewOf (snd (addChild c v s)) v) = Some c
       \<and> cls (snd (addChild c v s)) c = Container (k\<lparr>views := views k @ [v]\<rparr>)
       \<and> viewOf (snd (addChild c v s)) v = (viewOf s v)\<lparr>parent := Some c\<rparr>
       \<and> (\<forall>r. r \<noteq> v \<longrightarrow> viewOf (snd (addChild c v s)) r = viewOf s r)
       \<and> (\<forall>r. r \<noteq> c \<longrightarrow> cls (snd (addChild c v s)) r = cls s r))"
  using assms by (simp add: addChild_def Let_def)

theorem addChild_ownership_witness:
  "fst (addChild 5 1 stage) = Inl OwnershipConflict \<and> snd (addChild 5 1 stage) = stage
   \<and> fst (addChild 5 4 stage) = Inr ()
   \<and> parent (viewOf (snd (addChild 5 4 stage)) 4) = Some 5
   \<and> cls (snd (addChild 5 4 stage)) 5 = Container (new_Container\<lparr>views := [4]\<rparr>)"
proof -
  have k: "cls stage 5 = Container new_Container" by (simp add: stage_def)
  have owned: "parent (viewOf stage 1) \<noteq> None" by (simp add: stage_def)
  have free: "parent (viewOf stage 4) = None" by (simp add: stage_def new_View_def)
  from addChild_ownership [OF k, of 1] addChild_ownership [OF k, of 4] owned free
  show ?thesis by (simp add: new_Container_def)
qed

text \<open>
  Claim C10. \<open>removeChild\<close> of a view that is not in the child sequence of the container
  changes nothing at all: the whole store is the same afterwards, so the child sequence,
  the relative points and the owner of the view (null or not) are the same; the call
  returns normally, it has no failing branch.
\<close>

theorem removeChild_absent_noop:
  assumes "cls s c = Container k" and "v \<notin> set (views k)"
  shows "removeChild c v s = s"
proof -
  from assms(2) have "\<not> indexOf (views k) v > -1" by (simp add: indexOf_found)
  with assms(1) show ?thesis by (simp add: removeChild_def Let_def)
qed

theorem removeChild_absent_noop_witness:
  "parent (viewOf stage 1) = Some 0 \<and> removeChild 5 1 stage = stage"
proof -
  have k: "cls stage 5 = Container new_Container" by (simp add: stage_def)
  have "removeChild 5 1 stage = stage"
    by (rule removeChild_absent_noop [OF k]) (simp add: new_Container_def)
  then show ?thesis by (simp add: stage_def)
qed

text \<open>\<open>addChild\<close> and \<open>removeChild\<close> keep the ownership discipline.\<close>

lemma ownership_unique:
  assumes "ownership s" and "v \<in> set (children s a)" and "v \<in> set (children s b)"
  shows "a = b"
proof -
  from assms(1,2) have "parent (viewOf s v) = Some a" by (simp add: ownership_def)
  moreover from assms(1,3) have "parent (viewOf s v) = Some b" by (simp add: ownership_def)
  ultimately show ?thesis by simp
qed

lemma removeChild_present:
  assumes "cls s c = Container k" and "v \<in> set (views k)"
  shows "removeChild c v s =
     s\<lparr>viewOf := (viewOf s)(v := (viewOf s v)\<lparr>parent := None\<rparr>),
       cls := (cls s)(c := Container (k\<lparr>views := remove1 v (views k)\<rparr>))\<rparr>"
  using assms by (simp add: removeChild_def Let_def indexOf_found splice1_indexOf)

lemma children_addChild:
  assumes "cls s d = Container kd" and "parent (viewOf s v) = None"
  shows "children (snd (addChild d v s)) c = (if c = d then children s d @ [v] else children s c)"
  using assms by (simp add: addChild_def children_def Let_def)

lemma parent_addChild:
  assumes "cls s d = Container kd" and "parent (viewOf s v) = None"
  shows "parent (viewOf (snd (addChild d v s)) q) = (if q = v then Some d else parent (viewOf s q))"
  using assms by (simp add: addChild_def Let_def)

lemma ownership_addChild:
  assumes "ownership s" and "cls s d = Container kd"
  shows "ownership (snd (addChild d v s))"
proof (cases "parent (viewOf s v)")
  case (Some a)
  with assms show ?thesis by (simp add: addChild_def)
next
  case None
  have free: "v \<notin> set (children s c)" for c
    using assms(1) None by (auto simp: ownership_def)
  show ?thesis
    unfolding ownership_def children_addChild [OF assms(2) None] parent_addChild [OF assms(2) None]
    using assms(1) free by (auto simp: ownership_def)
qed

lemma removeChild_absent:
  assumes "cls s c = Container k" and "v \<notin> set (views k)"
  shows "removeChild c v s = s"
  using assms by (simp add: removeChild_def Let_def indexOf_found)

lemma children_removeChild:
  "children (removeChild c v s) q = (if q = c then remove1 v (children s c) else children s q)"
proof (cases "cls s c")
  case (Container k)
  show ?thesis
  proof (cases "v \<in> set (views k)")
    case True
    from removeChild_present [OF Container True] Container show ?thesis
      by (simp add: children_def)
  next
    case False
    from removeChild_absent [OF Container False] Container False show ?thesis
      by (simp add: children_def remove1_idem)
  qed
qed (simp_all add: removeChild_def children_def)

lemma parent_removeChild:
  "parent (viewOf (removeChild c v s) q)
     = (if q = v \<and> v \<in> set (children s c) then None else parent (viewOf s q))"
proof (cases "cls s c")
  case (Container k)
  show ?thesis
  proof (cases "v \<in> set (views k)")
    case True
    from removeChild_present [OF Container True] Container True show ?thesis
      by (simp add: children_def)
  next
    case False
    from removeChild_absent [OF Container False] Container False show ?thesis
      by (simp add: children_def)
  qed
qed (simp_all add: removeChild_def children_def)

lemma ownership_removeChild:
  assumes "ownership s"
  shows "ownership (removeChild c v s)"
proof -
  have other: "q \<noteq> v" if "q \<in> set (children s a)" and "a \<noteq> c" and "v \<in> set (children s c)"
    for q a
    using ownership_unique [OF assms that(3), of a] that(1,2) by auto
  have dist: "distinct (children s a)" for a
    using assms by (simp add: ownership_def)
  have par: "parent (viewOf s q) = Some a" if "q \<in> set (children s a)" for q a
    using assms that by (simp add: ownership_def)
  show ?thesis
    unfolding ownership_def children_removeChild parent_removeChild
    using other dist par by (auto dest: notin_set_remove1)
qed


section \<open>What a draw changes\<close>

lemma evolves_refl: "evolves s s"
  by (simp add: evolves_def)

lemma evolves_trans [trans]: "evolves s t \<Longrightarrow> evolves t u \<Longrightarrow> evolves s u"
  by (simp add: evolves_def)

lemma evolves_calls: "evolves s (s\<lparr>calls := cs\<rparr>)"
  by (simp add: evolves_def shape_def recorded_def)

lemma evolves_View_draw: "evolves s (View_draw r s)"
  by (simp add: View_draw_def evolves_calls)

lemma evolves_Label_draw: "evolves s (Label_draw r l s)"
  by (simp add: Label_draw_def View_draw_def Let_def evolves_def shape_def recorded_def)

lemma evolves_measure_view: "evolves s (measure_view r s)"
  by (auto simp: measure_view_def evolves_def shape_def recorded_def static_def split: cls.splits)

lemma evolves_move: "evolves s (s\<lparr>viewOf := (viewOf s)(v := (viewOf s v)\<lparr>x := a, y := b\<rparr>)\<rparr>)"
  by (simp add: evolves_def shape_def recorded_def static_def)

lemma evolves_flowStep: "evolves s (snd (snd (flowStep hs vsp aw v (cx, cy, s))))"
  unfolding flowStep.simps Let_def snd_conv
  by (rule evolves_trans [OF evolves_measure_view evolves_move])

lemma evolves_flowLoop: "evolves (snd (snd cur)) (snd (snd (flowLoop hs vsp aw vs cur)))"
proof (induction vs arbitrary: cur)
  case Nil
  show ?case by (simp add: flowLoop_def evolves_refl)
next
  case (Cons v vs)
  obtain cx cy s where cur: "cur = (cx, cy, s)" by (cases cur) auto
  have "evolves (snd (snd cur)) (snd (snd (flowStep hs vsp aw v cur)))"
    unfolding cur snd_conv by (rule evolves_flowStep)
  also have "evolves \<dots> (snd (snd (flowLoop hs vsp aw vs (flowStep hs vsp aw v cur))))"
    by (rule Cons.IH)
  finally show ?case by (simp add: flowLoop_def)
qed

lemma evolves_layout: "evolves s (layout lm c s)"
  using evolves_flowLoop [of "(0, 0, s)"]
  by (simp add: layout_def evolves_refl split: layoutManager.splits cls.splits)

lemma evolves_placeChild: "evolves s (placeChild c v s)"
  by (auto simp: placeChild_def Let_def evolves_def shape_def recorded_def static_def fun_eq_iff
      split: cls.splits option.splits)

lemma evolves_draw:
  "draw n r s = Some s' \<Longrightarrow> evolves s s'"
  "drawViews n c vs s = Some s' \<Longrightarrow> evolves s s'"
proof (induction n r s and n c vs s arbitrary: s' and s' rule: draw_drawViews.induct)
  case (1 r s)
  then show ?case by simp
next
  case (2 n r s)
  show ?case
  proof (cases "cls s r")
    case View
    with 2(2) show ?thesis by (auto simp: evolves_View_draw)
  next
    case (Label l)
    with 2(2) show ?thesis by (auto simp: evolves_Label_draw)
  next
    case (Container k)
    let ?s1 = "View_draw r s"
    let ?s2 = "case layoutManager k of None \<Rightarrow> ?s1 | Some lm \<Rightarrow> layout lm r ?s1"
    from 2(2) Container have run: "drawViews n r (views k) ?s2 = Some s'"
      by (simp add: Let_def)
    have "evolves ?s1 ?s2"
      by (simp add: evolves_refl evolves_layout split: option.splits)
    with evolves_View_draw have "evolves s ?s2" by (rule evolves_trans)
    moreover have "evolves ?s2 s'"
      by (rule 2(1) [OF Container refl refl run])
    ultimately show ?thesis by (rule evolves_trans)
  qed
next
  case (3 n c s)
  then show ?case by (simp add: evolves_refl)
next
  case (4 n c v vs s)
  from 4(3) obtain s1 where d: "draw n v (placeChild c v s) = Some s1"
    and rest: "drawViews n c vs (s1\<lparr>calls := calls s1 @ [Restore]\<rparr>) = Some s'"
    by (auto split: option.splits)
  have "evolves s (placeChild c v s)" by (rule evolves_placeChild)
  also have "evolves (placeChild c v s) s1" by (rule 4(1) [OF d])
  also have "evolves s1 (s1\<lparr>calls := calls s1 @ [Restore]\<rparr>)" by (rule evolves_calls)
  also have "evolves (s1\<lparr>calls := calls s1 @ [Restore]\<rparr>) s'" by (rule 4(2) [OF d rest])
  finally show ?case .
qed

lemma children_shape: "children s r = (case shape s r of Container k \<Rightarrow> views k | _ \<Rightarrow> [])"
  by (simp add: shape_def children_def split: cls.splits)

lemma evolves_children: "evolves s s' \<Longrightarrow> children s' r = children s r"
  by (simp add: children_shape evolves_def)

lemma evolves_below: "evolves s s' \<Longrightarrow> below n s' r = below n s r"
  by (induction n arbitrary: r) (simp_all add: evolves_children)

text \<open>A draw writes the rectangles of the views below the receiver only.\<close>

lemma viewOf_View_draw: "viewOf (View_draw r s) = viewOf s"
  by (simp add: View_draw_def)

lemma viewOf_Label_draw: "viewOf (Label_draw r l s) = viewOf s"
  by (simp add: Label_draw_def View_draw_def Let_def)

lemma viewOf_measure_view: "q \<noteq> r \<Longrightarrow> viewOf (measure_view r s) q = viewOf s q"
  by (simp add: measure_view_def split: cls.splits)

lemma viewOf_flowStep:
  "q \<noteq> v \<Longrightarrow> viewOf (snd (snd (flowStep hs vsp aw v cur))) q = viewOf (snd (snd cur)) q"
  by (cases cur) (simp add: flowStep.simps Let_def viewOf_measure_view)

lemma viewOf_flowLoop:
  "q \<notin> set vs \<Longrightarrow> viewOf (snd (snd (flowLoop hs vsp aw vs cur))) q = viewOf (snd (snd cur)) q"
proof (induction vs arbitrary: cur)
  case Nil
  show ?case by (simp add: flowLoop_def)
next
  case (Cons v vs)
  then have "q \<noteq> v" and "q \<notin> set vs" by auto
  with Cons.IH [of "flowStep hs vsp aw v cur"] show ?case
    by (simp add: flowLoop_def viewOf_flowStep)
qed

lemma viewOf_layout: "q \<notin> set (children s c) \<Longrightarrow> viewOf (layout lm c s) q = viewOf s q"
  by (simp add: layout_def children_def viewOf_flowLoop split: layoutManager.splits cls.splits)

lemma viewOf_placeChild: "q \<noteq> v \<Longrightarrow> viewOf (placeChild c v s) q = viewOf s q"
  by (simp add: placeChild_def Let_def split: cls.splits)

lemma frame_draw:
  "draw n r s = Some s' \<Longrightarrow> q \<notin> below n s r \<Longrightarrow> viewOf s' q = viewOf s q"
  "drawViews n c vs s = Some s' \<Longrightarrow> q \<notin> set vs \<Longrightarrow> q \<notin> (\<Union>v \<in> set vs. below n s v)
     \<Longrightarrow> viewOf s' q = viewOf s q"
proof (induction n r s and n c vs s arbitrary: s' and s' rule: draw_drawViews.induct)
  case (1 r s)
  then show ?case by simp
next
  case (2 n r s)
  show ?case
  proof (cases "cls s r")
    case View
    with 2(2) show ?thesis by (auto simp: viewOf_View_draw)
  next
    case (Label l)
    with 2(2) show ?thesis by (auto simp: viewOf_Label_draw)
  next
    case (Container k)
    let ?s1 = "View_draw r s"
    let ?s2 = "case layoutManager k of None \<Rightarrow> ?s1 | Some lm \<Rightarrow> layout lm r ?s1"
    from 2(2) Container have run: "drawViews n r (views k) ?s2 = Some s'"
      by (simp add: Let_def)
    have ch: "children s r = views k" using Container by (simp add: children_def)
    have ev1: "evolves s ?s1" by (rule evolves_View_draw)
    have "evolves ?s1 ?s2"
      by (simp add: evolves_refl evolves_layout split: option.splits)
    with ev1 have ev: "evolves s ?s2" by (rule evolves_trans)
    from 2(3) ch have q1: "q \<notin> set (views k)" and q2: "q \<notin> (\<Union>v \<in> set (views k). below n s v)"
      by auto
    from q2 have q2': "q \<notin> (\<Union>v \<in> set (views k). below n ?s2 v)"
      by (simp add: evolves_below [OF ev])
    have "viewOf s' q = viewOf ?s2 q"
      by (rule 2(1) [OF Container refl refl run q1 q2'])
    also have "viewOf ?s2 q = viewOf ?s1 q"
      using q1 ch evolves_children [OF ev1, of r]
      by (simp add: viewOf_layout split: option.splits)
    finally show ?thesis by (simp add: viewOf_View_draw)
  qed
next
  case (3 n c s)
  then show ?case by simp
next
  case (4 n c v vs s)
  from 4(3) obtain s1 where d: "draw n v (placeChild c v s) = Some s1"
    and rest: "drawViews n c vs (s1\<lparr>calls := calls s1 @ [Restore]\<rparr>) = Some s'"
    by (auto split: option.splits)
  let ?s2 = "s1\<lparr>calls := calls s1 @ [Restore]\<rparr>"
  have e1: "evolves s (placeChild c v s)" by (rule evolves_placeChild)
  also have "evolves (placeChild c v s) s1" by (rule evolves_draw(1) [OF d])
  also have "evolves s1 ?s2" by (rule evolves_calls)
  finally have e2: "evolves s ?s2" .
  from 4(4) have qv: "q \<noteq> v" and qvs: "q \<notin> set vs" by auto
  from 4(5) have qb: "q \<notin> below n (placeChild c v s) v"
    and qbs: "q \<notin> (\<Union>v \<in> set vs. below n ?s2 v)"
    by (simp_all add: evolves_below [OF e1] evolves_below [OF e2])
  have "viewOf s' q = viewOf ?s2 q" by (rule 4(2) [OF d rest qvs qbs])
  also have "\<dots> = viewOf s1 q" by simp
  also have "\<dots> = viewOf (placeChild c v s) q" by (rule 4(1) [OF d qb])
  also have "\<dots> = viewOf s q" using qv by (rule viewOf_placeChild)
  finally show ?case .
qed

lemma placeChild_placedAt:
  assumes "shape s c = Container k0" and "recorded s c v = Some p"
  shows "placedAt k0 p (viewOf s c) (viewOf (placeChild c v s) v)"
  using assms
  by (auto simp: shape_def recorded_def placeChild_def placedAt_def Let_def split: cls.splits)

lemma evolves_shape: "evolves s s' \<Longrightarrow> shape s' c = shape s c"
  by (simp add: evolves_def)

lemma evolves_recorded: "evolves s s' \<Longrightarrow> recorded s c v = Some p \<Longrightarrow> recorded s' c v = Some p"
  unfolding evolves_def by blast

lemma drawViews_places:
  assumes "drawViews n c vs s = Some s'"
    and "shape s c = Container k0" and "recorded s c v = Some p"
    and "c \<notin> set vs" and "c \<notin> (\<Union>u \<in> set vs. below n s u)"
    and "v \<notin> (\<Union>u \<in> set vs. below n s u)"
    and "v \<in> set vs \<or> placedAt k0 p (viewOf s c) (viewOf s v)"
  shows "placedAt k0 p (viewOf s c) (viewOf s' v) \<and> viewOf s' c = viewOf s c"
  using assms
proof (induction vs arbitrary: s)
  case Nil
  then show ?case by simp
next
  case (Cons u us)
  let ?sa = "placeChild c u s"
  from Cons.prems(1) obtain sb where d: "draw n u ?sa = Some sb"
    and rest: "drawViews n c us (sb\<lparr>calls := calls sb @ [Restore]\<rparr>) = Some s'"
    by (auto split: option.splits)
  let ?sc = "sb\<lparr>calls := calls sb @ [Restore]\<rparr>"
  have ea: "evolves s ?sa" by (rule evolves_placeChild)
  also have "evolves ?sa sb" by (rule evolves_draw(1) [OF d])
  also have "evolves sb ?sc" by (rule evolves_calls)
  finally have ec: "evolves s ?sc" .
  from Cons.prems(4) have cu: "c \<noteq> u" and cus: "c \<notin> set us" by auto
  from Cons.prems(5) have cb: "c \<notin> below n ?sa u"
    and cbs: "c \<notin> (\<Union>u \<in> set us. below n ?sc u)"
    by (simp_all add: evolves_below [OF ea] evolves_below [OF ec])
  from Cons.prems(6) have vb: "v \<notin> below n ?sa u"
    and vbs: "v \<notin> (\<Union>u \<in> set us. below n ?sc u)"
    by (simp_all add: evolves_below [OF ea] evolves_below [OF ec])
  have c_same: "viewOf ?sc c = viewOf s c"
    using frame_draw(1) [OF d cb] viewOf_placeChild [OF cu] by simp
  have v_sb: "viewOf ?sc v = viewOf ?sa v"
    using frame_draw(1) [OF d vb] by simp
  have placed: "v \<in> set us \<or> placedAt k0 p (viewOf ?sc c) (viewOf ?sc v)"
  proof (cases "u = v")
    case True
    with placeChild_placedAt [OF Cons.prems(2) Cons.prems(3)] v_sb c_same
    show ?thesis by simp
  next
    case False
    then have "viewOf ?sa v = viewOf s v" by (simp add: viewOf_placeChild)
    with False Cons.prems(7) v_sb c_same show ?thesis by auto
  qed
  have "placedAt k0 p (viewOf ?sc c) (viewOf s' v) \<and> viewOf s' c = viewOf ?sc c"
    by (rule Cons.IH [OF rest _ _ cus cbs vbs placed])
       (simp_all add: evolves_shape [OF ec] Cons.prems(2) evolves_recorded [OF ec Cons.prems(3)])
  with c_same show ?case by simp
qed

lemma draw_places:
  assumes "draw n c s = Some s'"
    and "cls s c = Container k" and "v \<in> set (views k)" and "relativePoints k v = Some p"
    and "c \<notin> below n s c"
    and "\<forall>u \<in> set (views k). v \<notin> below (n - 1) s u"
  shows "placedAt k p (viewOf s c) (viewOf s' v) \<and> viewOf s' c = viewOf s c"
proof (cases n)
  case 0
  with assms(1) show ?thesis by simp
next
  case (Suc m)
  let ?k0 = "k\<lparr>relativePoints := Map.empty\<rparr>"
  let ?s1 = "View_draw c s"
  let ?s2 = "case layoutManager k of None \<Rightarrow> ?s1 | Some lm \<Rightarrow> layout lm c ?s1"
  from assms(1,2) Suc have run: "drawViews m c (views k) ?s2 = Some s'"
    by (simp add: Let_def)
  have ch: "children s c = views k" using assms(2) by (simp add: children_def)
  have ev1: "evolves s ?s1" by (rule evolves_View_draw)
  have "evolves ?s1 ?s2"
    by (simp add: evolves_refl evolves_layout split: option.splits)
  with ev1 have ev: "evolves s ?s2" by (rule evolves_trans)
  from assms(5) Suc ch have c1: "c \<notin> set (views k)"
    and c2: "c \<notin> (\<Union>u \<in> set (views k). below m s u)" by auto
  have c_same: "viewOf ?s2 c = viewOf s c"
    using c1 ch evolves_children [OF ev1, of c]
    by (simp add: viewOf_layout viewOf_View_draw split: option.splits)
  have "shape s c = Container ?k0"
    using assms(2) by (simp add: shape_def)
  then have sh: "shape ?s2 c = Container ?k0"
    by (simp only: evolves_shape [OF ev])
  have rc: "recorded ?s2 c v = Some p"
    using assms(2,4) by (intro evolves_recorded [OF ev]) (simp add: recorded_def)
  from assms(6) Suc have vb: "v \<notin> (\<Union>u \<in> set (views k). below m ?s2 u)"
    by (simp add: evolves_below [OF ev])
  from c2 have cb: "c \<notin> (\<Union>u \<in> set (views k). below m ?s2 u)"
    by (simp add: evolves_below [OF ev])
  have "placedAt ?k0 p (viewOf ?s2 c) (viewOf s' v) \<and> viewOf s' c = viewOf ?s2 c"
    by (rule drawViews_places [OF run sh rc c1 cb vb]) (simp add: assms(3))
  with c_same show ?thesis by (simp add: placedAt_def)
qed


section \<open>Termination of a draw\<close>

text \<open>
  A draw returns when the depth bound exceeds the depth of the tree below the receiver;
  such a tree has no cycle through the receiver.
\<close>

lemma evolves_fits: "evolves s s' \<Longrightarrow> fits n s' r = fits n s r"
  by (induction n arbitrary: r) (simp_all add: evolves_children)

lemma draw_returns:
  "fits n s r \<Longrightarrow> \<exists>s'. draw n r s = Some s'"
  "\<forall>v \<in> set vs. fits n s v \<Longrightarrow> \<exists>s'. drawViews n c vs s = Some s'"
proof (induction n r s and n c vs s rule: draw_drawViews.induct)
  case (1 r s)
  then show ?case by simp
next
  case (2 n r s)
  show ?case
  proof (cases "cls s r")
    case (Container k)
    let ?s1 = "View_draw r s"
    let ?s2 = "case layoutManager k of None \<Rightarrow> ?s1 | Some lm \<Rightarrow> layout lm r ?s1"
    have "evolves ?s1 ?s2"
      by (simp add: evolves_refl evolves_layout split: option.splits)
    with evolves_View_draw have ev: "evolves s ?s2" by (rule evolves_trans)
    from 2(2) Container have "\<forall>v \<in> set (views k). fits n ?s2 v"
      by (simp add: children_def evolves_fits [OF ev])
    from 2(1) [OF Container refl refl this] Container show ?thesis
      by (simp add: Let_def)
  qed simp_all
next
  case (3 n c s)
  show ?case by simp
next
  case (4 n c v vs s)
  have e1: "evolves s (placeChild c v s)" by (rule evolves_placeChild)
  from 4(3) have "fits n (placeChild c v s) v" by (simp add: evolves_fits [OF e1])
  from 4(1) [OF this] obtain s1 where d: "draw n v (placeChild c v s) = Some s1" ..
  let ?s2 = "s1\<lparr>calls := calls s1 @ [Restore]\<rparr>"
  note e1
  also have "evolves (placeChild c v s) s1" by (rule evolves_draw(1) [OF d])
  also have "evolves s1 ?s2" by (rule evolves_calls)
  finally have e2: "evolves s ?s2" .
  from 4(3) have "\<forall>v \<in> set vs. fits n ?s2 v" by (simp add: evolves_fits [OF e2])
  from 4(2) [OF d this] d show ?case by simp
qed

lemma fits_below:
  "fits n s r \<Longrightarrow> q \<in> below m s r \<Longrightarrow> \<exists>j < n. fits j s q"
proof (induction m arbitrary: r n)
  case 0
  then show ?case by simp
next
  case (Suc m)
  from Suc.prems(1) obtain n' where n: "n = Suc n'" by (cases n) auto
  from Suc.prems(2) consider "q \<in> set (children s r)"
    | u where "u \<in> set (children s r)" and "q \<in> below m s u" by auto
  then show ?case
  proof cases
    case 1
    with Suc.prems(1) n have "fits n' s q" by simp
    with n show ?thesis by auto
  next
    case 2
    with Suc.prems(1) n have "fits n' s u" by simp
    from Suc.IH [OF this 2(2)] n show ?thesis by (auto intro: less_SucI)
  qed
qed

lemma fits_not_below_self: "fits n s r \<Longrightarrow> r \<notin> below m s r"
proof (induction n rule: less_induct)
  case (less n)
  show ?case
  proof
    assume "r \<in> below m s r"
    from fits_below [OF less.prems this] obtain j where "j < n" and "fits j s r" by blast
    from less.IH [OF this] \<open>r \<in> below m s r\<close> show False by simp
  qed
qed

text \<open>
  Under the ownership discipline a child of a container is not below one of the
  container's children as well.
\<close>

lemma below_parent:
  "q \<in> below m s r \<Longrightarrow> \<exists>w. q \<in> set (children s w) \<and> (w = r \<or> w \<in> below m s r)"
proof (induction m arbitrary: r)
  case 0
  then show ?case by simp
next
  case (Suc m)
  from Suc.prems consider "q \<in> set (children s r)"
    | u where "u \<in> set (children s r)" and "q \<in> below m s u" by auto
  then show ?case
  proof cases
    case 1
    then show ?thesis by blast
  next
    case 2
    from Suc.IH [OF 2(2)] obtain w where "q \<in> set (children s w)"
      and "w = u \<or> w \<in> below m s u" by blast
    with 2(1) show ?thesis by auto
  qed
qed

lemma ownership_not_nested:
  assumes "ownership s" and "fits n s c"
    and "v \<in> set (children s c)" and "u \<in> set (children s c)"
  shows "v \<notin> below m s u"
proof
  assume "v \<in> below m s u"
  from below_parent [OF this] obtain w where w: "v \<in> set (children s w)"
    and where_w: "w = u \<or> w \<in> below m s u" by blast
  from ownership_unique [OF assms(1) w assms(3)] have "w = c" .
  with where_w assms(4) have "c \<in> below (Suc m) s c" by auto
  with fits_not_below_self [OF assms(2)] show False by blast
qed

section \<open>Repeated draws\<close>

lemma evolves_Container:
  assumes "evolves s t" and "cls s c = Container k"
  shows "\<exists>rp. cls t c = Container (k\<lparr>relativePoints := rp\<rparr>) \<and> (\<forall>v p. relativePoints k v = Some p \<longrightarrow> rp v = Some p)"
proof -
  from assms have sh: "shape t c = Container (k\<lparr>relativePoints := Map.empty\<rparr>)"
    by (simp add: evolves_def shape_def)
  then obtain k' where k': "cls t c = Container k'"
    by (auto simp: shape_def split: cls.splits)
  with sh have "k'\<lparr>relativePoints := Map.empty\<rparr> = k\<lparr>relativePoints := Map.empty\<rparr>"
    by (simp add: shape_def)
  then have eq: "k' = k\<lparr>relativePoints := relativePoints k'\<rparr>"
    by (cases k, cases k') simp
  have "\<forall>v p. relativePoints k v = Some p \<longrightarrow> relativePoints k' v = Some p"
  proof (intro allI impI)
    fix v p assume "relativePoints k v = Some p"
    with assms(2) have "recorded s c v = Some p" by (simp add: recorded_def)
    from evolves_recorded [OF assms(1) this] k' show "relativePoints k' v = Some p"
      by (simp add: recorded_def)
  qed
  with k' eq show ?thesis by metis
qed

lemma draws_snoc:
  "draws n (Suc N) r s = (case draws n N r s of None \<Rightarrow> None | Some t \<Rightarrow> draw n r t)"
proof (induction N arbitrary: s)
  case 0
  show ?case by (simp split: option.splits)
next
  case (Suc N)
  show ?case
  proof (cases "draw n r s")
    case None
    then show ?thesis by simp
  next
    case (Some t)
    then have "draws n (Suc (Suc N)) r s = draws n (Suc N) r t" by simp
    also have "\<dots> = (case draws n N r t of None \<Rightarrow> None | Some u \<Rightarrow> draw n r u)"
      by (rule Suc.IH)
    also have "draws n N r t = draws n (Suc N) r s" using Some by simp
    finally show ?thesis .
  qed
qed

lemma evolves_draws: "draws n N r s = Some s' \<Longrightarrow> evolves s s'"
proof (induction N arbitrary: s)
  case 0
  then show ?case by (simp add: evolves_refl)
next
  case (Suc N)
  then obtain t where d: "draw n r s = Some t" and r: "draws n N r t = Some s'"
    by (auto split: option.splits)
  from evolves_draw(1) [OF d] Suc.IH [OF r] show ?case by (rule evolves_trans)
qed

lemma frame_draws:
  "draws n N r s = Some s' \<Longrightarrow> q \<notin> below n s r \<Longrightarrow> viewOf s' q = viewOf s q"
proof (induction N arbitrary: s)
  case 0
  then show ?case by simp
next
  case (Suc N)
  then obtain t where d: "draw n r s = Some t" and r: "draws n N r t = Some s'"
    by (auto split: option.splits)
  from Suc.prems(2) have "q \<notin> below n t r"
    by (simp add: evolves_below [OF evolves_draw(1) [OF d]])
  from Suc.IH [OF r this] frame_draw(1) [OF d Suc.prems(2)] show ?case by simp
qed

lemma draws_places:
  assumes "cls s c = Container k" and "v \<in> set (views k)"
    and "relativePoints k v = Some (rx, ry)"
    and "c \<notin> below n s c"
    and "\<forall>u \<in> set (views k). v \<notin> below (n - 1) s u"
    and "N \<ge> 1" and "draws n N c s = Some s'"
  shows "x (viewOf s' v) = x (viewOf s' c) + paddingLeft k + rx
       \<and> y (viewOf s' v) = y (viewOf s' c) + paddingTop k + ry
       \<and> viewOf s' c = viewOf s c
       \<and> (\<exists>rp. cls s' c = Container (k\<lparr>relativePoints := rp\<rparr>) \<and> rp v = Some (rx, ry))"
proof -
  from assms(6) obtain M where N: "N = Suc M" by (cases N) auto
  with assms(7) obtain t where pre: "draws n M c s = Some t" and last: "draw n c t = Some s'"
    by (auto simp: draws_snoc simp del: draws.simps split: option.splits)
  have ev: "evolves s t" by (rule evolves_draws [OF pre])
  from evolves_Container [OF ev assms(1)] assms(3)
  obtain rp where kt: "cls t c = Container (k\<lparr>relativePoints := rp\<rparr>)" and rp: "rp v = Some (rx, ry)"
    by blast
  let ?kt = "k\<lparr>relativePoints := rp\<rparr>"
  have ct: "viewOf t c = viewOf s c" by (rule frame_draws [OF pre assms(4)])
  have "placedAt ?kt (rx, ry) (viewOf t c) (viewOf s' v) \<and> viewOf s' c = viewOf t c"
    using assms(2,4,5) rp
    by (intro draw_places [OF last kt]) (simp_all add: evolves_below [OF ev])
  moreover from evolves_Container [OF evolves_draws [OF assms(7)] assms(1)] assms(3)
  have "\<exists>rp. cls s' c = Container (k\<lparr>relativePoints := rp\<rparr>) \<and> rp v = Some (rx, ry)"
    by blast
  ultimately show ?thesis using ct by (simp add: placedAt_def)
qed

lemma draws_return: "fits n s r \<Longrightarrow> \<exists>s'. draws n N r s = Some s'"
proof (induction N arbitrary: s)
  case 0
  show ?case by simp
next
  case (Suc N)
  from draw_returns(1) [OF Suc.prems] obtain t where d: "draw n r s = Some t" ..
  from Suc.prems have "fits n t r" by (simp add: evolves_fits [OF evolves_draw(1) [OF d]])
  from Suc.IH [OF this] d show ?case by simp
qed


text \<open>
  Claim C1. Let a container hold a child whose relative point \<open>(rx, ry)\<close> is recorded, in a
  store that keeps the ownership discipline, and let the tree below the container be
  less deep than the depth bound of the draws. Then any number \<open>N \<ge> 1\<close> of consecutive
  draws of the container returns, and afterwards the child is at the container's origin
  plus the left and top padding plus \<open>(rx, ry)\<close>: its position is computed from the
  recorded point at every draw and does not accumulate. The container's own rectangle,
  its padding and the recorded point are what they were before the draws. A layout
  manager may be attached: its pass comes before the placement in every draw.
\<close>

theorem draw_idempotent_placement:
  assumes "cls s c = Container k" and "v \<in> set (views k)"
    and "relativePoints k v = Some (rx, ry)"
    and "ownership s" and "fits n s c" and "N \<ge> 1"
  shows "\<exists>s'. draws n N c s = Some s'
       \<and> x (viewOf s' v) = x (viewOf s' c) + paddingLeft k + rx
       \<and> y (viewOf s' v) = y (viewOf s' c) + paddingTop k + ry
       \<and> viewOf s' c = viewOf s c
       \<and> (\<exists>rp. cls s' c = Container (k\<lparr>relativePoints := rp\<rparr>) \<and> rp v = Some (rx, ry))"
proof -
  have ch: "children s c = views k" using assms(1) by (simp add: children_def)
  have nested: "\<forall>u \<in> set (views k). v \<notin> below (n - 1) s u"
    using ownership_not_nested [OF assms(4,5), of v] assms(2) ch by simp
  from draws_return [OF assms(5)] obtain s' where run: "draws n N c s = Some s'" ..
  from draws_places [OF assms(1-3) fits_not_below_self [OF assms(5)] nested assms(6) run] run
  show ?thesis by blast
qed

lemma ownership_stage: "ownership stage"
  by (auto simp: ownership_def children_def stage_def stage_root_def stage_inner_def
      new_Container_def split: if_splits)

theorem draw_idempotent_placement_witness:
  "\<exists>s'. draws 3 2 0 stage = Some s' \<and> x (viewOf s' 1) = 108 \<and> y (viewOf s' 1) = 60"
proof -
  have k: "cls stage 0 = Container stage_root" by (simp add: stage_def)
  have "\<exists>s'. draws 3 2 0 stage = Some s'
      \<and> x (viewOf s' 1) = x (viewOf s' 0) + paddingLeft stage_root + 5
      \<and> y (viewOf s' 1) = y (viewOf s' 0) + paddingTop stage_root + 6
      \<and> viewOf s' 0 = viewOf stage 0
      \<and> (\<exists>rp. cls s' 0 = Container (stage_root\<lparr>relativePoints := rp\<rparr>) \<and> rp 1 = Some (5, 6))"
    by (rule draw_idempotent_placement [OF k _ _ ownership_stage])
       (simp_all add: eval_nat_numeral children_def stage_def stage_root_def stage_inner_def
          new_Container_def)
  then show ?thesis
    by (auto simp: stage_def stage_root_def new_Container_def new_View_def)
qed

section \<open>Flow layout\<close>

lemma flowStep_cursor:
  "(fst (flowStep hs vsp aw v (cx, cy, s)), fst (snd (flowStep hs vsp aw v (cx, cy, s))))
     = snd (flowCursor hs vsp aw (sizeOf s v) (cx, cy))"
  by (simp add: flowStep.simps Let_def sizeOf_def)

lemma flowStep_pos:
  "posOf (snd (snd (flowStep hs vsp aw v (cx, cy, s)))) v = fst (flowCursor hs vsp aw (sizeOf s v) (cx, cy))"
  by (simp add: flowStep.simps Let_def sizeOf_def posOf_def)

lemma sizeOf_flowStep:
  "sizeOf (snd (snd (flowStep hs vsp aw u (cx, cy, s)))) v = sizeOf s v"
  by (cases "cls s u"; cases "cls s v"; cases "u = v")
     (simp_all add: flowStep.simps Let_def sizeOf_def measure_view_def)

lemma flowLoop_Cons:
  "flowLoop hs vsp aw (v # vs) cur = flowLoop hs vsp aw vs (flowStep hs vsp aw v cur)"
  by (simp add: flowLoop_def)

lemma flowLoop_positions:
  assumes "distinct vs"
  shows "map (posOf (snd (snd (flowLoop hs vsp aw vs (cx, cy, s))))) vs
           = flowPlace hs vsp aw (map (sizeOf s) vs) (cx, cy)"
  using assms
proof (induction vs arbitrary: cx cy s)
  case Nil
  show ?case by simp
next
  case (Cons v vs)
  let ?st = "flowStep hs vsp aw v (cx, cy, s)"
  let ?s1 = "snd (snd ?st)"
  let ?fin = "snd (snd (flowLoop hs vsp aw vs ?st))"
  from Cons.prems have v: "v \<notin> set vs" and d: "distinct vs" by auto
  have st: "?st = (fst (snd (flowCursor hs vsp aw (sizeOf s v) (cx, cy))),
                   snd (snd (flowCursor hs vsp aw (sizeOf s v) (cx, cy))), ?s1)"
    using flowStep_cursor [of hs vsp aw v cx cy s] by (metis prod.collapse prod.inject)
  have "posOf ?fin v = posOf ?s1 v"
    using viewOf_flowLoop [OF v, of hs vsp aw ?st] by (simp add: posOf_def)
  then have hd: "posOf ?fin v = fst (flowCursor hs vsp aw (sizeOf s v) (cx, cy))"
    by (simp only: flowStep_pos)
  have "map (posOf ?fin) vs = flowPlace hs vsp aw (map (sizeOf ?s1) vs)
          (snd (flowCursor hs vsp aw (sizeOf s v) (cx, cy)))"
    using Cons.IH [OF d, of "fst (snd (flowCursor hs vsp aw (sizeOf s v) (cx, cy)))"
        "snd (snd (flowCursor hs vsp aw (sizeOf s v) (cx, cy)))" ?s1] st
    by simp
  moreover have "map (sizeOf ?s1) vs = map (sizeOf s) vs"
    by (simp add: sizeOf_flowStep)
  ultimately show ?case using hd by (simp add: flowLoop_Cons)
qed

lemma layout_flow_positions:
  assumes "cls s c = Container k" and "distinct (views k)"
  shows "map (posOf (layout (FlowLayoutManager hs vsp) c s)) (views k)
           = flowPlace hs vsp (width (viewOf s c) - (paddingLeft k + paddingRight k))
               (map (sizeOf s) (views k)) (0, 0)"
  using assms flowLoop_positions [OF assms(2)] by (simp add: layout_def)

text \<open>
  Claim C9. A flow layout with both gaps 0 on a container whose content width is 100 and
  whose children are three different views, each 40 wide once measured, puts the first
  at local (0, 0), the second at (40, 0) and, since 40 + 80 exceeds 100, the third at
  x = 0 on a new row, whose y is the height of the third child.
\<close>

theorem flow_three_children_of_width_40:
  assumes "cls s c = Container k" and "views k = [a, b, d]" and "distinct [a, b, d]"
    and "width (viewOf s c) - (paddingLeft k + paddingRight k) = 100"
    and "\<forall>v \<in> set [a, b, d]. width (viewOf (measure_view v s) v) = 40"
  shows "x (viewOf (layout (FlowLayoutManager 0 0) c s) a) = 0
       \<and> y (viewOf (layout (FlowLayoutManager 0 0) c s) a) = 0
       \<and> x (viewOf (layout (FlowLayoutManager 0 0) c s) b) = 40
       \<and> y (viewOf (layout (FlowLayoutManager 0 0) c s) b) = 0
       \<and> x (viewOf (layout (FlowLayoutManager 0 0) c s) d) = 0
       \<and> y (viewOf (layout (FlowLayoutManager 0 0) c s) d)
           = height (viewOf (measure_view d s) d)"
proof -
  from assms(2,3) have "distinct (views k)" by simp
  from layout_flow_positions [OF assms(1) this, of 0 0] assms(2,4,5)
  show ?thesis by (simp add: posOf_def sizeOf_def)
qed


theorem flow_three_children_of_width_40_witness:
  "x (viewOf (layout (FlowLayoutManager 0 0) 6 flow_stage) 7) = 0
   \<and> x (viewOf (layout (FlowLayoutManager 0 0) 6 flow_stage) 8) = 40
   \<and> x (viewOf (layout (FlowLayoutManager 0 0) 6 flow_stage) 9) = 0
   \<and> y (viewOf (layout (FlowLayoutManager 0 0) 6 flow_stage) 9) = 10"
proof -
  have k: "cls flow_stage 6 = Container flow_box" by (simp add: flow_stage_def)
  have "x (viewOf (layout (FlowLayoutManager 0 0) 6 flow_stage) 7) = 0
       \<and> y (viewOf (layout (FlowLayoutManager 0 0) 6 flow_stage) 7) = 0
       \<and> x (viewOf (layout (FlowLayoutManager 0 0) 6 flow_stage) 8) = 40
       \<and> y (viewOf (layout (FlowLayoutManager 0 0) 6 flow_stage) 8) = 0
       \<and> x (viewOf (layout (FlowLayoutManager 0 0) 6 flow_stage) 9) = 0
       \<and> y (viewOf (layout (FlowLayoutManager 0 0) 6 flow_stage) 9)
           = height (viewOf (measure_view 9 flow_stage) 9)"
    by (rule flow_three_children_of_width_40 [OF k])
       (simp_all add: flow_box_def new_Container_def flow_stage_def new_View_def measure_view_def)
  then show ?thesis
    by (simp add: flow_stage_def new_View_def measure_view_def)
qed

text \<open>
  Claim C3, amended. Let the loop of the flow layout have reached the child \<open>v\<close> with the
  cursor \<open>cur\<close>, after the children \<open>pre\<close> before it. Whenever the horizontal gap plus the
  measured width of \<open>v\<close> plus the cursor's x exceeds the available width, the cursor wraps:
  x is reset to 0 and y advances by the height of \<open>v\<close> itself, the child being placed,
  plus the vertical gap; \<open>v\<close> is put there, and that is its position after the layout when
  it does not occur again later in the sequence.
\<close>

theorem flow_wrap:
  assumes "cls s c = Container k" and "views k = pre @ v # post" and "v \<notin> set post"
    and "aw = width (viewOf s c) - (paddingLeft k + paddingRight k)"
    and "cur = flowLoop hs vsp aw pre (0, 0, s)"
    and "hs + width (viewOf (measure_view v (snd (snd cur))) v) + fst cur > aw"
  shows "x (viewOf (layout (FlowLayoutManager hs vsp) c s) v) = 0
       \<and> y (viewOf (layout (FlowLayoutManager hs vsp) c s) v)
           = fst (snd cur) + (height (viewOf (measure_view v (snd (snd cur))) v) + vsp)
       \<and> fst (flowLoop hs vsp aw (pre @ [v]) (0, 0, s))
           = 0 + (hs + width (viewOf (measure_view v (snd (snd cur))) v) + hs)
       \<and> fst (snd (flowLoop hs vsp aw (pre @ [v]) (0, 0, s)))
           = fst (snd cur) + (height (viewOf (measure_view v (snd (snd cur))) v) + vsp)"
proof -
  obtain cx cy t where cur: "cur = (cx, cy, t)" by (cases cur) auto
  let ?st = "flowStep hs vsp aw v cur"
  have step: "flowLoop hs vsp aw (pre @ [v]) (0, 0, s) = ?st"
    using assms(5) by (simp add: flowLoop_def)
  have "layout (FlowLayoutManager hs vsp) c s = snd (snd (flowLoop hs vsp aw post ?st))"
    using assms(1,2,4,5) by (simp add: layout_def flowLoop_def)
  then have "viewOf (layout (FlowLayoutManager hs vsp) c s) v = viewOf (snd (snd ?st)) v"
    by (simp add: viewOf_flowLoop [OF assms(3)])
  with step assms(6) show ?thesis
    by (simp add: cur flowStep.simps Let_def)
qed

theorem flow_wrap_witness:
  "x (viewOf (layout (FlowLayoutManager 0 0) 12 flow_stage) 14) = 0
   \<and> y (viewOf (layout (FlowLayoutManager 0 0) 12 flow_stage) 14) = 30"
proof -
  have k: "cls flow_stage 12 = Container rows_box" by (simp add: flow_stage_def)
  have v: "views rows_box = [13] @ 14 # []" by (simp add: rows_box_def new_Container_def)
  have aw: "(100::real) = width (viewOf flow_stage 12) - (paddingLeft rows_box + paddingRight rows_box)"
    by (simp add: flow_stage_def rows_box_def new_Container_def new_View_def)
  have cur: "flowLoop 0 0 100 [13] (0, 0, flow_stage) = flowLoop 0 0 100 [13] (0, 0, flow_stage)" ..
  have cur_val: "fst (flowLoop 0 0 100 [13] (0, 0, flow_stage)) = 60
    \<and> fst (snd (flowLoop 0 0 100 [13] (0, 0, flow_stage))) = 0
    \<and> viewOf (measure_view 14 (snd (snd (flowLoop 0 0 100 [13] (0, 0, flow_stage))))) 14
        = (new_View 0 0 60 30)\<lparr>parent := Some 12\<rparr>"
    by (simp add: flowLoop_def flowStep.simps Let_def flow_stage_def new_View_def measure_view_def)
  from flow_wrap [OF k v _ aw cur] cur_val show ?thesis
    by (simp add: new_View_def)
qed

text \<open>
  The claim as it was stated takes the height of the child of the previous row: with a
  first child 10 high and a second 30 high that wraps, y advances by 30 and not by 10.
\<close>

theorem flow_wrap_previous_row_height:
  "children flow_stage 12 = [13, 14]
   \<and> fst (flowLoop 0 0 100 [13] (0, 0, flow_stage)) = 60
   \<and> fst (snd (flowLoop 0 0 100 [13] (0, 0, flow_stage))) = 0
   \<and> 0 + width (viewOf flow_stage 14) + 60 > (100::real)
   \<and> height (viewOf flow_stage 13) = 10
   \<and> y (viewOf (layout (FlowLayoutManager 0 0) 12 flow_stage) 14) = 30
   \<and> y (viewOf (layout (FlowLayoutManager 0 0) 12 flow_stage) 14)
       \<noteq> 0 + (height (viewOf flow_stage 13) + 0)"
  by (simp add: children_def layout_def flowLoop_def flowStep.simps Let_def flow_stage_def
      rows_box_def new_Container_def new_View_def measure_view_def)


text \<open>
  Claim C4, amended. When the only child of a container with a flow layout is wider than
  the available content width (and the horizontal gap is not negative), the layout puts
  it at local x = 0 and y = its height plus the vertical gap: the wrap is taken for the
  first child like for any other. The layout has no failing branch.
\<close>

theorem flow_single_wide_child:
  assumes "cls s c = Container k" and "views k = [v]"
    and "width (viewOf (measure_view v s) v) > width (viewOf s c) - (paddingLeft k + paddingRight k)"
    and "hs \<ge> 0"
  shows "x (viewOf (layout (FlowLayoutManager hs vsp) c s) v) = 0
       \<and> y (viewOf (layout (FlowLayoutManager hs vsp) c s) v)
           = height (viewOf (measure_view v s) v) + vsp"
  using assms by (simp add: layout_def flowLoop_def flowStep.simps Let_def)

theorem flow_single_wide_child_witness:
  "x (viewOf (layout (FlowLayoutManager 0 0) 10 flow_stage) 11) = 0
   \<and> y (viewOf (layout (FlowLayoutManager 0 0) 10 flow_stage) 11) = 20"
proof -
  have k: "cls flow_stage 10 = Container wide_box" by (simp add: flow_stage_def)
  have "x (viewOf (layout (FlowLayoutManager 0 0) 10 flow_stage) 11) = 0
      \<and> y (viewOf (layout (FlowLayoutManager 0 0) 10 flow_stage) 11)
          = height (viewOf (measure_view 11 flow_stage) 11) + 0"
    by (rule flow_single_wide_child [OF k])
       (simp_all add: wide_box_def new_Container_def flow_stage_def new_View_def measure_view_def)
  then show ?thesis
    by (simp add: flow_stage_def new_View_def measure_view_def)
qed

text \<open>
  The claim as it was stated has y = 0: a child of 150 by 20 in a container 100 wide is
  put at (0, 20).
\<close>

theorem flow_single_wide_child_not_at_origin:
  "children flow_stage 10 = [11]
   \<and> width (viewOf flow_stage 11) > width (viewOf flow_stage 10) - (paddingLeft wide_box + paddingRight wide_box)
   \<and> y (viewOf (layout (FlowLayoutManager 0 0) 10 flow_stage) 11) = 20
   \<and> \<not> (x (viewOf (layout (FlowLayoutManager 0 0) 10 flow_stage) 11) = 0
        \<and> y (viewOf (layout (FlowLayoutManager 0 0) 10 flow_stage) 11) = 0)"
  by (simp add: children_def layout_def flowLoop_def flowStep.simps Let_def flow_stage_def
      wide_box_def new_Container_def new_View_def measure_view_def)


section \<open>Event dispatch\<close>







lemma map_set_new: "k \<notin> fst ` set ps \<Longrightarrow> map_set k v ps = ps @ [(k, v)]"
  by (induction ps) auto

lemma map_set_keys: "k \<in> fst ` set ps \<Longrightarrow> map fst (map_set k v ps) = map fst ps"
  by (induction ps) auto






section \<open>The objects a draw leaves alone\<close>

text \<open>
  A draw changes the class fields of the receiver and of the views below it only.
\<close>

lemma cls_View_draw: "cls (View_draw r s) = cls s"
  by (simp add: View_draw_def)

lemma cls_Label_draw: "cls (Label_draw r l s) = cls s"
  by (simp add: Label_draw_def View_draw_def Let_def)

lemma cls_measure_view: "cls (measure_view r s) = cls s"
  by (simp add: measure_view_def split: cls.splits)

lemma cls_flowStep: "cls (snd (snd (flowStep hs vsp aw v cur))) = cls (snd (snd cur))"
  by (cases cur) (simp add: flowStep.simps Let_def cls_measure_view)

lemma cls_flowLoop: "cls (snd (snd (flowLoop hs vsp aw vs cur))) = cls (snd (snd cur))"
  by (induction vs arbitrary: cur) (simp_all add: flowLoop_def cls_flowStep)

lemma cls_layout: "cls (layout lm c s) = cls s"
  by (simp add: layout_def cls_flowLoop split: layoutManager.splits cls.splits)

lemma cls_placeChild: "q \<noteq> c \<Longrightarrow> cls (placeChild c v s) q = cls s q"
  by (simp add: placeChild_def Let_def split: cls.splits)

lemma frame_cls:
  "draw n r s = Some s' \<Longrightarrow> q \<noteq> r \<Longrightarrow> q \<notin> below n s r \<Longrightarrow> cls s' q = cls s q"
  "drawViews n c vs s = Some s' \<Longrightarrow> q \<noteq> c \<Longrightarrow> q \<notin> set vs
     \<Longrightarrow> q \<notin> (\<Union>v \<in> set vs. below n s v) \<Longrightarrow> cls s' q = cls s q"
proof (induction n r s and n c vs s arbitrary: s' and s' rule: draw_drawViews.induct)
  case (1 r s)
  then show ?case by simp
next
  case (2 n r s)
  show ?case
  proof (cases "cls s r")
    case View
    with 2(2) show ?thesis by (auto simp: cls_View_draw)
  next
    case (Label l)
    with 2(2) show ?thesis by (auto simp: cls_Label_draw)
  next
    case (Container k)
    let ?s1 = "View_draw r s"
    let ?s2 = "case layoutManager k of None \<Rightarrow> ?s1 | Some lm \<Rightarrow> layout lm r ?s1"
    from 2(2) Container have run: "drawViews n r (views k) ?s2 = Some s'"
      by (simp add: Let_def)
    have ch: "children s r = views k" using Container by (simp add: children_def)
    have "evolves ?s1 ?s2"
      by (simp add: evolves_refl evolves_layout split: option.splits)
    with evolves_View_draw have ev: "evolves s ?s2" by (rule evolves_trans)
    from 2(4) ch have q1: "q \<notin> set (views k)"
      and q2: "q \<notin> (\<Union>v \<in> set (views k). below n ?s2 v)"
      by (auto simp: evolves_below [OF ev])
    have "cls s' q = cls ?s2 q"
      by (rule 2(1) [OF Container refl refl run 2(3) q1 q2])
    also have "cls ?s2 = cls s"
      by (simp add: cls_layout cls_View_draw split: option.splits)
    finally show ?thesis .
  qed
next
  case (3 n c s)
  then show ?case by simp
next
  case (4 n c v vs s)
  from 4(3) obtain s1 where d: "draw n v (placeChild c v s) = Some s1"
    and rest: "drawViews n c vs (s1\<lparr>calls := calls s1 @ [Restore]\<rparr>) = Some s'"
    by (auto split: option.splits)
  let ?s2 = "s1\<lparr>calls := calls s1 @ [Restore]\<rparr>"
  have e1: "evolves s (placeChild c v s)" by (rule evolves_placeChild)
  also have "evolves (placeChild c v s) s1" by (rule evolves_draw(1) [OF d])
  also have "evolves s1 ?s2" by (rule evolves_calls)
  finally have e2: "evolves s ?s2" .
  from 4(5) have qv: "q \<noteq> v" and qvs: "q \<notin> set vs" by auto
  from 4(6) have qb: "q \<notin> below n (placeChild c v s) v"
    and qbs: "q \<notin> (\<Union>v \<in> set vs. below n ?s2 v)"
    by (simp_all add: evolves_below [OF e1] evolves_below [OF e2])
  have "cls s' q = cls ?s2 q" by (rule 4(2) [OF d rest 4(4) qvs qbs])
  also have "\<dots> = cls s1 q" by simp
  also have "\<dots> = cls (placeChild c v s) q" by (rule 4(1) [OF d qv qb])
  also have "\<dots> = cls s q" using 4(4) by (rule cls_placeChild)
  finally show ?case .
qed

lemma frame_recorded:
  "draw n r s = Some s' \<Longrightarrow> q \<noteq> r \<Longrightarrow> q \<notin> below n s r \<Longrightarrow> recorded s' q v = recorded s q v"
  by (simp add: recorded_def frame_cls(1))

section \<open>Relative points\<close>

lemma placeChild_captures:
  assumes "shape s c = Container k0" and "recorded s c v = None"
  shows "recorded (placeChild c v s) c v = Some (posOf s v)"
  using assms
  by (auto simp: shape_def recorded_def placeChild_def posOf_def Let_def split: cls.splits)

lemma placeChild_recorded_other:
  "u \<noteq> v \<Longrightarrow> recorded (placeChild c u s) c v = recorded s c v"
  by (simp add: recorded_def placeChild_def Let_def split: cls.splits)

lemma drawViews_captures:
  assumes "drawViews n c vs s = Some s'"
    and "shape s c = Container k0" and "recorded s c v = None"
    and "c \<notin> set vs" and "c \<notin> (\<Union>u \<in> set vs. below n s u)"
    and "v \<notin> (\<Union>u \<in> set vs. below n s u)"
    and "v \<in> set vs"
  shows "recorded s' c v = Some (posOf s v)
       \<and> placedAt k0 (posOf s v) (viewOf s c) (viewOf s' v) \<and> viewOf s' c = viewOf s c"
  using assms
proof (induction vs arbitrary: s)
  case Nil
  then show ?case by simp
next
  case (Cons u us)
  let ?sa = "placeChild c u s"
  from Cons.prems(1) obtain sb where d: "draw n u ?sa = Some sb"
    and rest: "drawViews n c us (sb\<lparr>calls := calls sb @ [Restore]\<rparr>) = Some s'"
    by (auto split: option.splits)
  let ?sc = "sb\<lparr>calls := calls sb @ [Restore]\<rparr>"
  have ea: "evolves s ?sa" by (rule evolves_placeChild)
  also have eb: "evolves ?sa sb" by (rule evolves_draw(1) [OF d])
  also have "evolves sb ?sc" by (rule evolves_calls)
  finally have ec: "evolves s ?sc" .
  have er: "evolves ?sc s'" by (rule evolves_draw(2) [OF rest])
  from Cons.prems(4) have cu: "c \<noteq> u" and cus: "c \<notin> set us" by auto
  from Cons.prems(5) have cb: "c \<notin> below n ?sa u"
    and cbs: "c \<notin> (\<Union>u \<in> set us. below n ?sc u)"
    by (simp_all add: evolves_below [OF ea] evolves_below [OF ec])
  from Cons.prems(6) have vb: "v \<notin> below n ?sa u"
    and vbs: "v \<notin> (\<Union>u \<in> set us. below n ?sc u)"
    by (simp_all add: evolves_below [OF ea] evolves_below [OF ec])
  have c_same: "viewOf ?sc c = viewOf s c"
    using frame_draw(1) [OF d cb] viewOf_placeChild [OF cu] by simp
  have v_sb: "viewOf ?sc v = viewOf ?sa v"
    using frame_draw(1) [OF d vb] by simp
  have sh: "shape ?sc c = Container k0"
    by (simp only: evolves_shape [OF ec] Cons.prems(2))
  show ?case
  proof (cases "u = v")
    case True
    have "recorded ?sa c v = Some (posOf s v)"
      unfolding True [symmetric] using Cons.prems(2,3) True by (intro placeChild_captures) simp_all
    then have "recorded sb c v = Some (posOf s v)" by (rule evolves_recorded [OF eb])
    then have rc: "recorded ?sc c v = Some (posOf s v)" by (simp add: recorded_def)
    have "placedAt k0 (posOf s v) (viewOf s c) (viewOf ?sa v)"
      using Cons.prems(2,3) True
      by (auto simp: shape_def recorded_def placeChild_def placedAt_def posOf_def Let_def
          split: cls.splits)
    with v_sb c_same have pl: "v \<in> set us \<or> placedAt k0 (posOf s v) (viewOf ?sc c) (viewOf ?sc v)"
      by simp
    have "placedAt k0 (posOf s v) (viewOf ?sc c) (viewOf s' v) \<and> viewOf s' c = viewOf ?sc c"
      by (rule drawViews_places [OF rest sh rc cus cbs vbs pl])
    with c_same evolves_recorded [OF er rc] show ?thesis by simp
  next
    case False
    with Cons.prems(7) have mem: "v \<in> set us" by simp
    have "recorded sb c v = recorded ?sa c v"
      by (rule frame_recorded [OF d cu cb])
    also have "\<dots> = recorded s c v"
      using False by (rule placeChild_recorded_other)
    finally have "recorded sb c v = None" by (simp only: Cons.prems(3))
    then have rc: "recorded ?sc c v = None"
      by (simp add: recorded_def)
    have pos: "posOf ?sc v = posOf s v"
      using v_sb False by (simp add: posOf_def viewOf_placeChild)
    have "recorded s' c v = Some (posOf ?sc v)
       \<and> placedAt k0 (posOf ?sc v) (viewOf ?sc c) (viewOf s' v) \<and> viewOf s' c = viewOf ?sc c"
      by (rule Cons.IH [OF rest sh rc cus cbs vbs mem])
    with pos c_same show ?thesis by simp
  qed
qed


lemma agree_View_draw: "agree s (View_draw c s)"
  by (simp add: agree_def View_draw_def)

lemma agree_measure_view: "agree s t \<Longrightarrow> agree (measure_view v s) (measure_view v t)"
  by (auto simp: agree_def measure_view_def split: cls.splits)

lemma agree_flowStep:
  assumes "agree s t"
  shows "fst (flowStep hs vsp aw v (cx, cy, s)) = fst (flowStep hs vsp aw v (cx, cy, t))
       \<and> fst (snd (flowStep hs vsp aw v (cx, cy, s))) = fst (snd (flowStep hs vsp aw v (cx, cy, t)))
       \<and> agree (snd (snd (flowStep hs vsp aw v (cx, cy, s)))) (snd (snd (flowStep hs vsp aw v (cx, cy, t))))"
  using agree_measure_view [OF assms, of v]
  by (simp add: flowStep.simps Let_def agree_def)

lemma agree_flowLoop:
  assumes "agree s t"
  shows "agree (snd (snd (flowLoop hs vsp aw vs (cx, cy, s)))) (snd (snd (flowLoop hs vsp aw vs (cx, cy, t))))"
  using assms
proof (induction vs arbitrary: cx cy s t)
  case Nil
  then show ?case by (simp add: flowLoop_def)
next
  case (Cons v vs)
  obtain a b s1 where s1: "flowStep hs vsp aw v (cx, cy, s) = (a, b, s1)"
    by (cases "flowStep hs vsp aw v (cx, cy, s)") auto
  obtain a' b' t1 where t1: "flowStep hs vsp aw v (cx, cy, t) = (a', b', t1)"
    by (cases "flowStep hs vsp aw v (cx, cy, t)") auto
  from agree_flowStep [OF Cons.prems, of hs vsp aw v cx cy] s1 t1
  have "a = a'" and "b = b'" and "agree s1 t1" by simp_all
  with Cons.IH [of s1 t1 a b] s1 t1 show ?case
    by (simp add: flowLoop_Cons)
qed

lemma agree_layout:
  assumes "agree s t"
  shows "agree (layout lm c s) (layout lm c t)"
proof (cases lm)
  case LayoutManager
  with assms show ?thesis by (simp add: layout_def)
next
  case (FlowLayoutManager hs vsp)
  from assms have same: "cls s c = cls t c" "viewOf s c = viewOf t c"
    by (simp_all add: agree_def)
  show ?thesis
  proof (cases "cls t c")
    case (Container k)
    with same FlowLayoutManager agree_flowLoop [OF assms] show ?thesis
      by (simp add: layout_def)
  qed (use assms same FlowLayoutManager in \<open>simp_all add: layout_def\<close>)
qed

lemma draw_captures:
  assumes "draw n c s = Some s'"
    and "cls s c = Container k" and "v \<in> set (views k)" and "relativePoints k v = None"
    and "c \<notin> below n s c"
    and "\<forall>u \<in> set (views k). v \<notin> below (n - 1) s u"
  shows "recorded s' c v = Some (posOf (afterLayout k c s) v)
       \<and> placedAt k (posOf (afterLayout k c s) v) (viewOf s c) (viewOf s' v)
       \<and> viewOf s' c = viewOf s c"
proof (cases n)
  case 0
  with assms(1) show ?thesis by simp
next
  case (Suc m)
  let ?k0 = "k\<lparr>relativePoints := Map.empty\<rparr>"
  let ?s1 = "View_draw c s"
  let ?s2 = "case layoutManager k of None \<Rightarrow> ?s1 | Some lm \<Rightarrow> layout lm c ?s1"
  from assms(1,2) Suc have run: "drawViews m c (views k) ?s2 = Some s'"
    by (simp add: Let_def)
  have ch: "children s c = views k" using assms(2) by (simp add: children_def)
  have ev1: "evolves s ?s1" by (rule evolves_View_draw)
  have "evolves ?s1 ?s2"
    by (simp add: evolves_refl evolves_layout split: option.splits)
  with ev1 have ev: "evolves s ?s2" by (rule evolves_trans)
  from assms(5) Suc ch have c1: "c \<notin> set (views k)"
    and c2: "c \<notin> (\<Union>u \<in> set (views k). below m s u)" by auto
  have c_same: "viewOf ?s2 c = viewOf s c"
    using c1 ch evolves_children [OF ev1, of c]
    by (simp add: viewOf_layout viewOf_View_draw split: option.splits)
  have "shape s c = Container ?k0"
    using assms(2) by (simp add: shape_def)
  then have sh: "shape ?s2 c = Container ?k0"
    by (simp only: evolves_shape [OF ev])
  have "cls ?s2 = cls s"
    by (simp add: cls_layout cls_View_draw split: option.splits)
  with assms(2,4) have rc: "recorded ?s2 c v = None"
    by (simp add: recorded_def)
  have "agree (afterLayout k c s) ?s2"
    using agree_View_draw [of s c] agree_layout [OF agree_View_draw [of s c]]
    by (simp add: afterLayout_def split: option.splits)
  then have pos: "posOf ?s2 v = posOf (afterLayout k c s) v"
    by (simp add: agree_def posOf_def)
  from assms(6) Suc have vb: "v \<notin> (\<Union>u \<in> set (views k). below m ?s2 u)"
    by (simp add: evolves_below [OF ev])
  from c2 have cb: "c \<notin> (\<Union>u \<in> set (views k). below m ?s2 u)"
    by (simp add: evolves_below [OF ev])
  have "recorded s' c v = Some (posOf ?s2 v)
      \<and> placedAt ?k0 (posOf ?s2 v) (viewOf ?s2 c) (viewOf s' v) \<and> viewOf s' c = viewOf ?s2 c"
    by (rule drawViews_captures [OF run sh rc c1 cb vb assms(3)])
  with c_same pos show ?thesis by (simp add: placedAt_def)
qed

lemma draw_records:
  assumes "cls s c = Container k" and "v \<in> set (views k)"
    and "c \<notin> below n s c" and "\<forall>u \<in> set (views k). v \<notin> below (n - 1) s u"
    and "draw n c s = Some s'"
    and "p = (case relativePoints k v of
                Some p0 \<Rightarrow> p0
              | None \<Rightarrow> posOf (afterLayout k c s) v)"
  shows "recorded s' c v = Some p
       \<and> x (viewOf s' v) = x (viewOf s' c) + paddingLeft k + fst p
       \<and> y (viewOf s' v) = y (viewOf s' c) + paddingTop k + snd p
       \<and> recorded (afterLayout k c s) c v = relativePoints k v"
proof -
  have lay: "recorded (afterLayout k c s) c v = relativePoints k v"
    using assms(1) by (simp add: afterLayout_def recorded_def cls_layout split: option.splits)
  show ?thesis
  proof (cases "relativePoints k v")
    case None
    with assms(6) have p: "p = posOf (afterLayout k c s) v" by simp
    from draw_captures [OF assms(5,1,2) None assms(3,4)] lay show ?thesis
      by (simp add: p placedAt_def)
  next
    case (Some p0)
    with assms(6) have p: "p = p0" by simp
    from assms(1) Some have "recorded s c v = Some p0" by (simp add: recorded_def)
    from evolves_recorded [OF evolves_draw(1) [OF assms(5)] this]
      draw_places [OF assms(5,1,2) Some assms(3,4)] lay
    show ?thesis by (simp add: p placedAt_def)
  qed
qed


text \<open>
  Claim C6, amended. Let a container hold a child in a store that keeps the ownership
  discipline, and let the tree below the container be less deep than the depth bound. A
  draw of the container returns; it records the relative point of the child when the
  container has none for it, from the position the child has after the layout pass of
  that draw; a point that is recorded already is kept as it is, and the layout pass
  itself writes no relative point, whatever positions it gives the children. In both
  cases the draw then puts the child at the container's origin plus padding plus the
  recorded point. So the point is captured once and immutable from then on, also under a
  layout manager, and the position a child is painted at follows the point captured
  first, not the latest placement of the layout manager.
\<close>

theorem relative_point_captured_once:
  assumes "cls s c = Container k" and "v \<in> set (views k)"
    and "ownership s" and "fits n s c"
    and "p = (case relativePoints k v of
                Some p0 \<Rightarrow> p0
              | None \<Rightarrow> posOf (afterLayout k c s) v)"
  shows "\<exists>s'. draw n c s = Some s'
       \<and> recorded s' c v = Some p
       \<and> x (viewOf s' v) = x (viewOf s' c) + paddingLeft k + fst p
       \<and> y (viewOf s' v) = y (viewOf s' c) + paddingTop k + snd p
       \<and> recorded (afterLayout k c s) c v = relativePoints k v"
proof -
  have ch: "children s c = views k" using assms(1) by (simp add: children_def)
  have nested: "\<forall>u \<in> set (views k). v \<notin> below (n - 1) s u"
    using ownership_not_nested [OF assms(3,4), of v] assms(2) ch by simp
  from draw_returns(1) [OF assms(4)] obtain s' where run: "draw n c s = Some s'" ..
  from draw_records [OF assms(1,2) fits_not_below_self [OF assms(4)] nested run assms(5)] run
  show ?thesis by blast
qed

lemmas flow_stage_simps =
  flow_stage_def flow_box_def new_Container_def new_View_def

lemmas draw_eval =
  placeChild_def View_draw_def Label_draw_def drawBg_def drawBorder_def layout_def
  flowLoop_def flowStep.simps measure_view_def Let_def

lemma numeral_2_Suc: "2 = Suc (Suc 0)"
  by simp

lemma ownership_flow_stage: "ownership flow_stage"
  by (auto simp: ownership_def children_def flow_stage_def flow_box_def wide_box_def
      rows_box_def new_Container_def split: if_splits)

lemma flow_drawn_eval:
  "draw 2 6 flow_stage \<noteq> None
   \<and> viewOf flow_drawn = (viewOf flow_stage)
       (7 := (new_View 10 20 40 10)\<lparr>parent := Some 6\<rparr>,
        8 := (new_View 50 20 40 10)\<lparr>parent := Some 6\<rparr>,
        9 := (new_View 10 30 40 10)\<lparr>parent := Some 6\<rparr>)
   \<and> cls flow_drawn = (cls flow_stage)
       (6 := Container (flow_box\<lparr>relativePoints := [7 \<mapsto> (0, 0), 8 \<mapsto> (40, 0), 9 \<mapsto> (0, 10)]\<rparr>))"
  unfolding flow_drawn_def
  apply (subst (1 2 3) numeral_2_Suc)
  apply (simp add: flow_stage_simps draw_eval fun_eq_iff)
  done

lemma flow_removed_eval:
  "viewOf flow_removed = (viewOf flow_stage)
       (7 := new_View 10 20 40 10,
        8 := (new_View 50 20 40 10)\<lparr>parent := Some 6\<rparr>,
        9 := (new_View 10 30 40 10)\<lparr>parent := Some 6\<rparr>)
   \<and> cls flow_removed = (cls flow_stage)
       (6 := Container (flow_box\<lparr>views := [8, 9],
          relativePoints := [7 \<mapsto> (0, 0), 8 \<mapsto> (40, 0), 9 \<mapsto> (0, 10)]\<rparr>))"
  using flow_drawn_eval
  by (simp add: flow_removed_def removeChild_def splice1_def Let_def flow_stage_simps fun_eq_iff)

lemma flow_relayout_eval:
  "posOf (layout (FlowLayoutManager 0 0) 6 flow_removed) 8 = (0, 0)"
  using flow_removed_eval
  by (simp add: posOf_def flow_stage_simps draw_eval)

lemma flow_redrawn_eval:
  "draw 2 6 flow_removed \<noteq> None
   \<and> recorded flow_redrawn 6 8 = Some (40, 0)
   \<and> posOf flow_redrawn 8 = (50, 20)"
  unfolding flow_redrawn_def
  apply (subst (1 2 3) numeral_2_Suc)
  using flow_removed_eval
  apply (simp add: posOf_def recorded_def flow_stage_simps draw_eval)
  done


theorem relative_point_captured_once_witness:
  "draw 2 6 flow_stage = Some flow_drawn
   \<and> recorded flow_drawn 6 8 = Some (40, 0)
   \<and> x (viewOf flow_drawn 8) = 50 \<and> y (viewOf flow_drawn 8) = 20"
proof -
  have k: "cls flow_stage 6 = Container flow_box" by (simp add: flow_stage_def)
  have p: "(40, 0) = (case relativePoints flow_box 8 of
                Some p0 \<Rightarrow> p0
              | None \<Rightarrow> posOf (afterLayout flow_box 6 flow_stage) 8)"
    by (simp add: afterLayout_def posOf_def flow_stage_simps draw_eval)
  have "\<exists>s'. draw 2 6 flow_stage = Some s'
       \<and> recorded s' 6 8 = Some (40, 0)
       \<and> x (viewOf s' 8) = x (viewOf s' 6) + paddingLeft flow_box + fst (40 :: real, 0 :: real)
       \<and> y (viewOf s' 8) = y (viewOf s' 6) + paddingTop flow_box + snd (40 :: real, 0 :: real)
       \<and> recorded (afterLayout flow_box 6 flow_stage) 6 8 = relativePoints flow_box 8"
    by (rule relative_point_captured_once [OF k _ ownership_flow_stage _ p])
       (simp_all add: eval_nat_numeral children_def flow_stage_simps)
  then have "draw 2 6 flow_stage = Some flow_drawn
       \<and> recorded flow_drawn 6 8 = Some (40, 0)
       \<and> x (viewOf flow_drawn 8) = x (viewOf flow_drawn 6) + paddingLeft flow_box + 40
       \<and> y (viewOf flow_drawn 8) = y (viewOf flow_drawn 6) + paddingTop flow_box + 0"
    by (auto simp: flow_drawn_def)
  with flow_drawn_eval show ?thesis by (simp add: flow_stage_simps)
qed

text \<open>
  The claim as it was stated has the recorded point follow the layout: after a draw of
  the flow container 6 the point of its second child 8 is (40, 0); once the first child
  is removed the layout pass puts 8 at (0, 0), but the next draw keeps (40, 0) and
  paints 8 at (50, 20), not at (10, 20).
\<close>

theorem layout_change_not_recorded:
  "draw 2 6 flow_stage \<noteq> None
   \<and> recorded flow_drawn 6 8 = Some (40, 0)
   \<and> children flow_removed 6 = [8, 9]
   \<and> posOf (layout (FlowLayoutManager 0 0) 6 flow_removed) 8 = (0, 0)
   \<and> draw 2 6 flow_removed \<noteq> None
   \<and> recorded flow_redrawn 6 8 = Some (40, 0)
   \<and> recorded flow_redrawn 6 8 \<noteq> Some (posOf (layout (FlowLayoutManager 0 0) 6 flow_removed) 8)
   \<and> posOf flow_redrawn 8 = (50, 20)"
  using flow_drawn_eval flow_removed_eval flow_relayout_eval flow_redrawn_eval
  by (simp add: recorded_def children_def flow_stage_simps)

lemma removeChild_addChild_draw:
  assumes "cls s c = Container k" and "v \<in> set (views k)"
    and "d \<noteq> c" and "cls s d = Container kd" and "relativePoints kd v = None"
    and "s1 = removeChild c v s" and "s2 = snd (addChild d v s1)"
    and "d \<notin> below n s2 d" and "\<forall>u \<in> set (views kd @ [v]). v \<notin> below (n - 1) s2 u"
    and "draw n d s2 = Some s3"
  shows "parent (viewOf s1 v) = None
       \<and> cls s1 c = Container (k\<lparr>views := remove1 v (views k)\<rparr>)
       \<and> recorded s1 c v = relativePoints k v
       \<and> fst (addChild d v s1) = Inr ()
       \<and> cls s2 d = Container (kd\<lparr>views := views kd @ [v]\<rparr>)
       \<and> recorded s3 d v = Some (posOf (afterLayout kd d s2) v)
       \<and> x (viewOf s3 v) = x (viewOf s3 d) + paddingLeft kd + fst (posOf (afterLayout kd d s2) v)
       \<and> y (viewOf s3 v) = y (viewOf s3 d) + paddingTop kd + snd (posOf (afterLayout kd d s2) v)
       \<and> (layoutManager kd = None \<longrightarrow> posOf (afterLayout kd d s2) v = posOf s v)"
proof -
  let ?kd = "kd\<lparr>views := views kd @ [v]\<rparr>"
  have s1: "s1 = s\<lparr>viewOf := (viewOf s)(v := (viewOf s v)\<lparr>parent := None\<rparr>),
       cls := (cls s)(c := Container (k\<lparr>views := remove1 v (views k)\<rparr>))\<rparr>"
    unfolding assms(6) by (rule removeChild_present [OF assms(1,2)])
  have d1: "cls s1 d = Container kd" using assms(3,4) by (simp add: s1)
  have free: "parent (viewOf s1 v) = None" by (simp add: s1)
  have add: "addChild d v s1 =
      (Inr (), s1\<lparr>viewOf := (viewOf s1)(v := (viewOf s1 v)\<lparr>parent := Some d\<rparr>),
                  cls := (cls s1)(d := Container ?kd)\<rparr>)"
    using d1 free by (simp add: addChild_def Let_def)
  then have s2: "s2 = s1\<lparr>viewOf := (viewOf s1)(v := (viewOf s1 v)\<lparr>parent := Some d\<rparr>),
                  cls := (cls s1)(d := Container ?kd)\<rparr>"
    by (simp add: assms(7))
  have d2: "cls s2 d = Container ?kd" by (simp add: s2)
  have lay: "afterLayout ?kd d s2 = afterLayout kd d s2" by (simp add: afterLayout_def)
  have "recorded s3 d v = Some (posOf (afterLayout ?kd d s2) v)
      \<and> placedAt ?kd (posOf (afterLayout ?kd d s2) v) (viewOf s2 d) (viewOf s3 v)
      \<and> viewOf s3 d = viewOf s2 d"
    using assms(5,8,9) by (intro draw_captures [OF assms(10) d2]) simp_all
  moreover have "posOf s2 v = posOf s v" by (simp add: s2 s1 posOf_def)
  ultimately show ?thesis
    using assms(1) add
    by (simp add: lay placedAt_def free d2) (simp add: s1 recorded_def afterLayout_def)
qed


text \<open>
  Claim C5, amended. In a store that keeps the ownership discipline, \<open>removeChild\<close> of a
  view that is in the child sequence clears the owner of the view and removes it from
  the sequence; the relative points of the container, the one recorded for the view
  included, stay as they are. When the view is then added to a different container that
  has no relative point for it, \<open>addChild\<close> succeeds, and the next draw of that container
  (the tree below it being less deep than the depth bound) returns, records for the view
  the position it has after the layout pass of that draw and places it from that point;
  without a layout manager this is the position the view had before it was removed.
\<close>

theorem removeChild_keeps_relative_point:
  assumes "cls s c = Container k" and "v \<in> set (views k)"
    and "d \<noteq> c" and "cls s d = Container kd" and "relativePoints kd v = None"
    and "s1 = removeChild c v s" and "s2 = snd (addChild d v s1)"
    and "ownership s" and "fits n s2 d"
  shows "parent (viewOf s1 v) = None
       \<and> cls s1 c = Container (k\<lparr>views := remove1 v (views k)\<rparr>)
       \<and> recorded s1 c v = relativePoints k v
       \<and> fst (addChild d v s1) = Inr ()
       \<and> cls s2 d = Container (kd\<lparr>views := views kd @ [v]\<rparr>)
       \<and> (\<exists>s3. draw n d s2 = Some s3
            \<and> recorded s3 d v = Some (posOf (afterLayout kd d s2) v)
            \<and> x (viewOf s3 v) = x (viewOf s3 d) + paddingLeft kd + fst (posOf (afterLayout kd d s2) v)
            \<and> y (viewOf s3 v) = y (viewOf s3 d) + paddingTop kd + snd (posOf (afterLayout kd d s2) v))
       \<and> (layoutManager kd = None \<longrightarrow> posOf (afterLayout kd d s2) v = posOf s v)"
proof -
  have d1: "cls s1 d = Container kd"
    using assms(1-4) by (simp add: assms(6) removeChild_present)
  have free: "parent (viewOf s1 v) = None"
    using assms(1,2) by (simp add: assms(6) removeChild_present)
  have own: "ownership s2"
    unfolding assms(7) assms(6)
    by (rule ownership_addChild [OF ownership_removeChild [OF assms(8)] d1 [unfolded assms(6)]])
  have ch: "children s2 d = views kd @ [v]"
    using children_addChild [OF d1 free, of d] d1 by (simp add: assms(7) children_def)
  have nested: "\<forall>u \<in> set (views kd @ [v]). v \<notin> below (n - 1) s2 u"
    using ownership_not_nested [OF own assms(9), of v] ch by simp
  from draw_returns(1) [OF assms(9)] obtain s3 where run: "draw n d s2 = Some s3" ..
  from removeChild_addChild_draw
    [OF assms(1-7) fits_not_below_self [OF assms(9)] nested run] run
  show ?thesis by blast
qed

lemma below_2: "below 2 s r = set (children s r) \<union> (\<Union>v \<in> set (children s r). set (children s v))"
  by (simp add: numeral_2_eq_2)

lemma fits_2: "fits 2 s r \<longleftrightarrow> (\<forall>v \<in> set (children s r). children s v = [])"
  by (simp add: numeral_2_eq_2)

lemma stage_moved_children:
  "children (snd (addChild 5 1 (removeChild 0 1 stage))) 5 = [1]"
  "children (snd (addChild 5 1 (removeChild 0 1 stage))) 1 = []"
  by (simp_all add: children_def addChild_def removeChild_def splice1_def Let_def
        stage_def stage_root_def new_Container_def new_View_def)

theorem removeChild_keeps_relative_point_witness:
  "\<exists>s3. draw 2 5 (snd (addChild 5 1 (removeChild 0 1 stage))) = Some s3
     \<and> recorded (removeChild 0 1 stage) 0 1 = Some (5, 6)
     \<and> recorded s3 5 1 = Some (108, 60)
     \<and> x (viewOf s3 1) = 118 \<and> y (viewOf s3 1) = 70"
proof -
  let ?s1 = "removeChild 0 1 stage"
  let ?s2 = "snd (addChild 5 1 ?s1)"
  have k: "cls stage 0 = Container stage_root" by (simp add: stage_def)
  have kd: "cls stage 5 = Container new_Container" by (simp add: stage_def)
  have "parent (viewOf ?s1 1) = None
       \<and> cls ?s1 0 = Container (stage_root\<lparr>views := remove1 1 (views stage_root)\<rparr>)
       \<and> recorded ?s1 0 1 = relativePoints stage_root 1
       \<and> fst (addChild 5 1 ?s1) = Inr ()
       \<and> cls ?s2 5 = Container (new_Container\<lparr>views := views new_Container @ [1]\<rparr>)
       \<and> (\<exists>s3. draw 2 5 ?s2 = Some s3
            \<and> recorded s3 5 1 = Some (posOf (afterLayout new_Container 5 ?s2) 1)
            \<and> x (viewOf s3 1) = x (viewOf s3 5) + paddingLeft new_Container + fst (posOf (afterLayout new_Container 5 ?s2) 1)
            \<and> y (viewOf s3 1) = y (viewOf s3 5) + paddingTop new_Container + snd (posOf (afterLayout new_Container 5 ?s2) 1))
       \<and> (layoutManager new_Container = None \<longrightarrow> posOf (afterLayout new_Container 5 ?s2) 1 = posOf stage 1)"
    by (rule removeChild_keeps_relative_point [OF k _ _ kd _ refl refl ownership_stage])
       (simp_all add: fits_2 stage_moved_children stage_root_def new_Container_def
          del: One_nat_def)
  then obtain s3 where run: "draw 2 5 ?s2 = Some s3"
    and rec0: "recorded ?s1 0 1 = relativePoints stage_root 1"
    and rec: "recorded s3 5 1 = Some (posOf (afterLayout new_Container 5 ?s2) 1)"
    and px: "x (viewOf s3 1) = x (viewOf s3 5) + paddingLeft new_Container + fst (posOf (afterLayout new_Container 5 ?s2) 1)"
    and py: "y (viewOf s3 1) = y (viewOf s3 5) + paddingTop new_Container + snd (posOf (afterLayout new_Container 5 ?s2) 1)"
    and pos: "posOf (afterLayout new_Container 5 ?s2) 1 = posOf stage 1"
    by (auto simp: new_Container_def)
  have "viewOf s3 5 = viewOf ?s2 5"
    by (rule frame_draw(1) [OF run]) (simp add: below_2 stage_moved_children del: One_nat_def)
  moreover have "viewOf ?s2 5 = new_View 10 10 80 80"
    by (simp add: addChild_def removeChild_def splice1_def Let_def
        stage_def stage_root_def new_Container_def new_View_def)
  ultimately show ?thesis using run rec0 rec px py pos
    by (simp add: posOf_def stage_def stage_root_def new_Container_def new_View_def)
qed

text \<open>
  The claim as it was stated has \<open>removeChild\<close> drop the relative point: view 1 is removed
  from container 0, whose map still holds (5, 6) for it.
\<close>

theorem removeChild_leaves_relative_point:
  "1 \<in> set (children stage 0)
   \<and> recorded stage 0 1 = Some (5, 6)
   \<and> children (removeChild 0 1 stage) 0 = [2]
   \<and> recorded (removeChild 0 1 stage) 0 1 = Some (5, 6)
   \<and> recorded (removeChild 0 1 stage) 0 1 \<noteq> None"
  by (simp add: children_def recorded_def removeChild_def splice1_def Let_def
      stage_def stage_root_def new_Container_def)


end
